theory Spec2Isabelle
  imports Main
begin

section \<open>The grid of the tile game (class \<open>Grid\<close> of game/game.py)\<close>

text \<open>
  Python's exceptions are values: \<open>ValueError\<close> is the specification's InvalidArgument,
  \<open>IndexError\<close> its OutOfBounds.
\<close>

datatype error = ValueError | IndexError

text \<open>A direction is a pair (row delta, column delta) of Python integers.\<close>

type_synonym direction = "int \<times> int"

definition UP :: direction where "UP = (-1, 0)"
definition DOWN :: direction where "DOWN = (1, 0)"
definition LEFT :: direction where "LEFT = (0, -1)"
definition RIGHT :: direction where "RIGHT = (0, 1)"

definition DIRECTIONS :: "direction list" where
  "DIRECTIONS = [UP, RIGHT, DOWN, LEFT]"

definition EDGE :: int where "EDGE = -1"
definition EMPTY :: int where "EMPTY = 0"

text \<open>
  The object's attributes. \<open>cells\<close> is the attribute \<open>_grid\<close>: the backing list of rows,
  with one row or column of \<open>EDGE\<close> around the values.
\<close>

record Grid =
  width :: int
  height :: int
  cells :: "int list list"

text \<open>\<open>_makegrid\<close>: the rows are copies (\<open>blank[:]\<close>, \<open>middle[:]\<close>), so no two rows alias.\<close>

definition makegrid :: "int \<Rightarrow> int \<Rightarrow> int \<Rightarrow> error + int list list" where
  "makegrid w h initial_value =
     (if w \<le> 0 \<or> h \<le> 0 then Inl ValueError
      else
        let real_width = w + 2;
            blank = replicate (nat real_width) EDGE;
            middle = [EDGE] @ replicate (nat w) initial_value @ [EDGE]
        in Inr ([blank] @ replicate (nat h) middle @ [blank]))"

text \<open>\<open>Grid.__init__\<close>\<close>

definition Grid_init :: "int \<Rightarrow> int \<Rightarrow> error + Grid" where
  "Grid_init w h =
     (case makegrid w h EMPTY of
        Inl e \<Rightarrow> Inl e
      | Inr rows \<Rightarrow> Inr \<lparr>width = w, height = h, cells = rows\<rparr>)"

definition to_grid_indices :: "int \<Rightarrow> int \<Rightarrow> int \<times> int" where
  "to_grid_indices j i = (j + 1, i + 1)"

definition to_view_indices :: "int \<Rightarrow> int \<Rightarrow> int \<times> int" where
  "to_view_indices j i = (j - 1, i - 1)"

definition apply_dir :: "int \<Rightarrow> int \<Rightarrow> direction \<Rightarrow> int \<times> int" where
  "apply_dir j i dir = (case dir of (j2, i2) \<Rightarrow> (j + j2, i + i2))"

definition on_grid :: "Grid \<Rightarrow> int \<Rightarrow> int \<Rightarrow> bool" where
  "on_grid g j i = ((0 < i \<and> i \<le> width g) \<and> (0 < j \<and> j \<le> height g))"

definition range_check :: "Grid \<Rightarrow> int \<Rightarrow> int \<Rightarrow> error + unit" where
  "range_check g j i =
     (case to_grid_indices j i of (grid_j, grid_i) \<Rightarrow>
        if \<not> on_grid g grid_j grid_i then Inl IndexError else Inr ())"

text \<open>
  \<open>self._grid[j][i]\<close>, a read of the backing list. The code reads and writes the backing
  list only after \<open>_range_check\<close> or at the indices of \<open>_cell_indices\<close>; lemma
  \<open>on_grid_in_backing\<close> below shows that these lie inside the list in every well-formed
  grid, where Python's indexing and \<open>!\<close> agree.
\<close>

definition cell_at :: "Grid \<Rightarrow> int \<Rightarrow> int \<Rightarrow> int" where
  "cell_at g j i = cells g ! nat j ! nat i"

definition get :: "Grid \<Rightarrow> int \<Rightarrow> int \<Rightarrow> error + int" where
  "get g j i =
     (case range_check g j i of
        Inl e \<Rightarrow> Inl e
      | Inr _ \<Rightarrow> (case to_grid_indices j i of (grid_j, grid_i) \<Rightarrow> Inr (cell_at g grid_j grid_i)))"

text \<open>
  \<open>Grid.set\<close> mutates the object and returns \<open>it\<close>; the model returns the new state of
  the object (the value returned is the argument \<open>it\<close>).
\<close>

definition set_cell :: "Grid \<Rightarrow> int \<Rightarrow> int \<Rightarrow> int \<Rightarrow> error + Grid" where
  "set_cell g j i it =
     (case range_check g j i of
        Inl e \<Rightarrow> Inl e
      | Inr _ \<Rightarrow> (case to_grid_indices j i of (grid_j, grid_i) \<Rightarrow>
          Inr (g\<lparr>cells := (cells g)[nat grid_j := (cells g ! nat grid_j)[nat grid_i := it]]\<rparr>)))"

text \<open>\<open>_cell_indices\<close>: \<open>range(1, n + 1)\<close> is the list \<open>[1..n]\<close>.\<close>

definition cell_indices :: "Grid \<Rightarrow> (int \<times> int) list" where
  "cell_indices g = concat (map (\<lambda>j. map (\<lambda>i. (j, i)) [1..width g]) [1..height g])"

text \<open>\<open>_rows\<close> and \<open>cell_values\<close>\<close>

definition rows :: "Grid \<Rightarrow> int list list" where
  "rows g = map (\<lambda>j. map (\<lambda>i. cell_at g j i) [1..width g]) [1..height g]"

definition cell_values :: "Grid \<Rightarrow> int list" where
  "cell_values g = concat (rows g)"

definition available_cells :: "Grid \<Rightarrow> (int \<times> int) list" where
  "available_cells g =
     map (\<lambda>(j, i). to_view_indices j i)
       (filter (\<lambda>(j, i). cell_at g j i = EMPTY) (cell_indices g))"

definition occupied_cells :: "Grid \<Rightarrow> (int \<times> int) list" where
  "occupied_cells g =
     map (\<lambda>(j, i). to_view_indices j i)
       (filter (\<lambda>(j, i). cell_at g j i \<noteq> EMPTY \<and> cell_at g j i \<noteq> EDGE) (cell_indices g))"

definition neighbors :: "Grid \<Rightarrow> int \<Rightarrow> int \<Rightarrow> direction list \<Rightarrow> (int \<times> int) list" where
  "neighbors g j i directions =
     (case to_grid_indices j i of (grid_j, grid_i) \<Rightarrow>
        map (\<lambda>(n_j, n_i). to_view_indices n_j n_i)
          (filter (\<lambda>(n_j, n_i). on_grid g n_j n_i)
             (map (\<lambda>dir. apply_dir grid_j grid_i dir) directions)))"

section \<open>The game (class \<open>Game\<close>)\<close>

text \<open>The attribute \<open>_max\<close> is the field \<open>best_value\<close>.\<close>

record Game =
  grid :: Grid
  initial_value :: int
  goal :: int
  best_value :: int

definition Game_init :: "int \<Rightarrow> int \<Rightarrow> int \<Rightarrow> int \<Rightarrow> error + Game" where
  "Game_init w h goal_arg initial_value_arg =
     (case Grid_init w h of
        Inl e \<Rightarrow> Inl e
      | Inr g \<Rightarrow> Inr \<lparr>grid = g, initial_value = initial_value_arg, goal = goal_arg, best_value = 0\<rparr>)"

text \<open>
  \<open>_place_random\<close>. The draw of \<open>random.choice\<close> is the argument \<open>r\<close>: the element
  chosen from the list of \<open>n\<close> available cells is the one at index \<open>r mod n\<close>, so every
  available cell can be chosen and nothing else. On the empty list \<open>random.choice\<close> raises
  IndexError, which the code catches to return.
\<close>

definition place_random :: "nat \<Rightarrow> Game \<Rightarrow> error + Game" where
  "place_random r gm =
     (case available_cells (grid gm) of
        [] \<Rightarrow> Inr gm
      | c # cs \<Rightarrow>
          (case (c # cs) ! (r mod length (c # cs)) of (i, j) \<Rightarrow>
             (case set_cell (grid gm) i j (initial_value gm) of
                Inl e \<Rightarrow> Inl e
              | Inr g' \<Rightarrow> Inr (gm\<lparr>grid := g'\<rparr>))))"

text \<open>\<open>start\<close>: two placements, with the draws \<open>r1\<close> and \<open>r2\<close>.\<close>

definition start :: "nat \<Rightarrow> nat \<Rightarrow> Game \<Rightarrow> error + Game" where
  "start r1 r2 gm =
     (case place_random r1 gm of
        Inl e \<Rightarrow> Inl e
      | Inr gm1 \<Rightarrow> place_random r2 gm1)"

definition validate_direction :: "direction \<Rightarrow> error + unit" where
  "validate_direction direction =
     (if direction \<notin> set DIRECTIONS then Inl ValueError else Inr ())"

text \<open>
  The accessors handed to \<open>_squash\<close> and \<open>_combine\<close> are closures on the grid object; in
  the model they take the current state of the grid.
\<close>

type_synonym getter = "Grid \<Rightarrow> int \<Rightarrow> int \<Rightarrow> error + int"
type_synonym setter = "Grid \<Rightarrow> int \<Rightarrow> int \<Rightarrow> int \<Rightarrow> error + Grid"

definition get_params_for_direction ::
  "Game \<Rightarrow> direction \<Rightarrow> error + (int \<times> int \<times> int \<times> getter \<times> setter)" where
  "get_params_for_direction gm direction =
     (if direction = LEFT \<or> direction = RIGHT then
        (let max' = width (grid gm); get' = get; set' = set_cell
         in if direction = LEFT \<or> direction = UP then Inr (0, max', 1, get', set')
            else if direction = RIGHT \<or> direction = DOWN then Inr (max' - 1, max', -1, get', set')
            else Inl ValueError)
      else if direction = UP \<or> direction = DOWN then
        (let max' = height (grid gm);
             get' = (\<lambda>g j i. get g i j);
             set' = (\<lambda>g j i it. set_cell g i j it)
         in if direction = LEFT \<or> direction = UP then Inr (0, max', 1, get', set')
            else if direction = RIGHT \<or> direction = DOWN then Inr (max' - 1, max', -1, get', set')
            else Inl ValueError)
      else Inl ValueError)"

text \<open>
  The \<open>while\<close> loop of \<open>_squash\<close> on one row. It ends for the steps \<open>1\<close> and \<open>-1\<close> that
  \<open>slam\<close> passes, and would not for the step \<open>0\<close>, so the result is an option: \<open>None\<close>
  is a loop that never ends. The value moved is read once (the code reads
  \<open>get_(row, curr)\<close> a second time, with nothing written in between).
\<close>

partial_function (option) squash_while ::
  "int \<Rightarrow> int \<Rightarrow> getter \<Rightarrow> setter \<Rightarrow> int \<Rightarrow> int \<Rightarrow> int \<Rightarrow> Grid \<Rightarrow> (error + Grid) option" where
  "squash_while max' delta get' set' row cur last_empty g =
     (if 0 \<le> cur \<and> cur < max' \<and> 0 \<le> last_empty \<and> last_empty < max' then
        (case get' g row last_empty of
           Inl e \<Rightarrow> Some (Inl e)
         | Inr le_val \<Rightarrow>
             if le_val = EMPTY then
               (case get' g row cur of
                  Inl e \<Rightarrow> Some (Inl e)
                | Inr cur_val \<Rightarrow>
                    if cur_val > 0 then
                      (case set' g row last_empty cur_val of
                         Inl e \<Rightarrow> Some (Inl e)
                       | Inr g1 \<Rightarrow>
                           (case set' g1 row cur EMPTY of
                              Inl e \<Rightarrow> Some (Inl e)
                            | Inr g2 \<Rightarrow>
                                squash_while max' delta get' set' row (cur + delta)
                                  (last_empty + delta) g2))
                    else squash_while max' delta get' set' row (cur + delta) last_empty g)
             else squash_while max' delta get' set' row (cur + delta) (last_empty + delta) g)
      else Some (Inr g))"

declare squash_while.simps [code]

text \<open>\<open>for row in range(max_)\<close>: the body runs on each row in turn, an error ends the loop.\<close>

fun for_rows ::
  "(int \<Rightarrow> Grid \<Rightarrow> (error + Grid) option) \<Rightarrow> int list \<Rightarrow> Grid \<Rightarrow> (error + Grid) option" where
  "for_rows body [] g = Some (Inr g)"
| "for_rows body (row # rest) g =
     (case body row g of
        None \<Rightarrow> None
      | Some (Inl e) \<Rightarrow> Some (Inl e)
      | Some (Inr g') \<Rightarrow> for_rows body rest g')"

definition squash ::
  "int \<Rightarrow> int \<Rightarrow> int \<Rightarrow> getter \<Rightarrow> setter \<Rightarrow> Grid \<Rightarrow> (error + Grid) option" where
  "squash start' max' delta get' set' g =
     for_rows (\<lambda>row. squash_while max' delta get' set' row start' start') [0..max' - 1] g"

text \<open>The \<open>while\<close> loop of \<open>_combine\<close> on one row.\<close>

partial_function (option) combine_while ::
  "(int \<Rightarrow> bool) \<Rightarrow> int \<Rightarrow> getter \<Rightarrow> setter \<Rightarrow> int \<Rightarrow> int \<Rightarrow> Grid \<Rightarrow> (error + Grid) option" where
  "combine_while bounds delta get' set' row cur g =
     (if bounds cur then
        (case get' g row cur of
           Inl e \<Rightarrow> Some (Inl e)
         | Inr cur_val \<Rightarrow>
             (case get' g row (cur + delta) of
                Inl e \<Rightarrow> Some (Inl e)
              | Inr next_val \<Rightarrow>
                  if cur_val \<noteq> EMPTY \<and> cur_val = next_val then
                    (case set' g row cur (cur_val * 2) of
                       Inl e \<Rightarrow> Some (Inl e)
                     | Inr g1 \<Rightarrow>
                         (case set' g1 row (cur + delta) EMPTY of
                            Inl e \<Rightarrow> Some (Inl e)
                          | Inr g2 \<Rightarrow>
                              combine_while bounds delta get' set' row (cur + delta * 2) g2))
                  else combine_while bounds delta get' set' row (cur + delta) g))
      else Some (Inr g))"

declare combine_while.simps [code]

definition combine ::
  "int \<Rightarrow> int \<Rightarrow> int \<Rightarrow> getter \<Rightarrow> setter \<Rightarrow> Grid \<Rightarrow> (error + Grid) option" where
  "combine start' max' delta get' set' g =
     (let bounds = (if start' = 0 then (\<lambda>x. x < max' - 1) else (\<lambda>x. x > 0))
      in for_rows (\<lambda>row. combine_while bounds delta get' set' row start') [0..max' - 1] g)"

text \<open>Python's \<open>max\<close> of a sequence: ValueError on the empty one.\<close>

definition py_max :: "int list \<Rightarrow> error + int" where
  "py_max xs = (case xs of [] \<Rightarrow> Inl ValueError | x # rest \<Rightarrow> Inr (fold max rest x))"

text \<open>
  The three passes of \<open>slam\<close> (squash, combine, squash) with the parameters of the
  direction.
\<close>

definition move_merge_move ::
  "int \<times> int \<times> int \<times> getter \<times> setter \<Rightarrow> Grid \<Rightarrow> (error + Grid) option" where
  "move_merge_move params g =
     (case params of (start', max', delta, get', set') \<Rightarrow>
        (case squash start' max' delta get' set' g of
           None \<Rightarrow> None
         | Some (Inl e) \<Rightarrow> Some (Inl e)
         | Some (Inr g1) \<Rightarrow>
             (case combine start' max' delta get' set' g1 of
                None \<Rightarrow> None
              | Some (Inl e) \<Rightarrow> Some (Inl e)
              | Some (Inr g2) \<Rightarrow> squash start' max' delta get' set' g2)))"

text \<open>\<open>slam\<close>, with the draw \<open>r\<close> of its random placement.\<close>

definition slam :: "direction \<Rightarrow> nat \<Rightarrow> Game \<Rightarrow> (error + Game) option" where
  "slam direction r gm =
     (case validate_direction direction of
        Inl e \<Rightarrow> Some (Inl e)
      | Inr _ \<Rightarrow>
          (case get_params_for_direction gm direction of
             Inl e \<Rightarrow> Some (Inl e)
           | Inr params \<Rightarrow>
               (case move_merge_move params (grid gm) of
                  None \<Rightarrow> None
                | Some (Inl e) \<Rightarrow> Some (Inl e)
                | Some (Inr g3) \<Rightarrow>
                    (case place_random r (gm\<lparr>grid := g3\<rparr>) of
                       Inl e \<Rightarrow> Some (Inl e)
                     | Inr gm4 \<Rightarrow>
                         (case py_max (cell_values (grid gm4)) of
                            Inl e \<Rightarrow> Some (Inl e)
                          | Inr m \<Rightarrow> Some (Inr (gm4\<lparr>best_value := m\<rparr>)))))))"

definition goal_met :: "Game \<Rightarrow> bool" where
  "goal_met gm = (best_value gm \<ge> goal gm)"

text \<open>\<open>_position_can_move\<close>: the loop over the neighbours, then the function.\<close>

fun neighbor_scan :: "Grid \<Rightarrow> int \<Rightarrow> (int \<times> int) list \<Rightarrow> error + bool" where
  "neighbor_scan g current [] = Inr False"
| "neighbor_scan g current ((n_j, n_i) # rest) =
     (case get g n_j n_i of
        Inl e \<Rightarrow> Inl e
      | Inr neighbor_value \<Rightarrow>
          if neighbor_value = EMPTY \<or> neighbor_value = current then Inr True
          else neighbor_scan g current rest)"

definition position_can_move :: "Game \<Rightarrow> int \<Rightarrow> int \<Rightarrow> direction list \<Rightarrow> error + bool" where
  "position_can_move gm j i directions =
     (case get (grid gm) j i of
        Inl e \<Rightarrow> Inl e
      | Inr current \<Rightarrow> neighbor_scan (grid gm) current (neighbors (grid gm) j i directions))"

text \<open>
  \<open>any_can_move\<close>: the two nested \<open>for\<close> loops visit the positions in the order of the
  list below, column by column, and return at the first position that can move.
\<close>

fun position_scan :: "Game \<Rightarrow> direction list \<Rightarrow> (int \<times> int) list \<Rightarrow> error + bool" where
  "position_scan gm directions [] = Inr False"
| "position_scan gm directions ((i, j) # rest) =
     (case get (grid gm) j i of
        Inl e \<Rightarrow> Inl e
      | Inr v \<Rightarrow>
          if v = EMPTY then Inr True
          else (case position_can_move gm j i directions of
                  Inl e \<Rightarrow> Inl e
                | Inr b \<Rightarrow> if b then Inr True else position_scan gm directions rest))"

definition any_can_move :: "Game \<Rightarrow> direction list \<Rightarrow> error + bool" where
  "any_can_move gm directions =
     position_scan gm directions
       (concat (map (\<lambda>i. map (\<lambda>j. (i, j)) [0..height (grid gm) - 1]) [0..width (grid gm) - 1]))"

definition is_over :: "Game \<Rightarrow> error + bool" where
  "is_over gm =
     (if goal_met gm then Inr True
      else (case any_can_move gm DIRECTIONS of Inl e \<Rightarrow> Inl e | Inr b \<Rightarrow> Inr (\<not> b)))"

section \<open>Notions used to state the properties\<close>

text \<open>
  A grid is well formed when its backing list has \<open>height + 2\<close> rows of \<open>width + 2\<close>
  cells, as \<open>_makegrid\<close> builds it.
\<close>

definition wf_grid :: "Grid \<Rightarrow> bool" where
  "wf_grid g = (0 < width g \<and> 0 < height g \<and> length (cells g) = nat (height g + 2)
     \<and> list_all (\<lambda>row. length row = nat (width g + 2)) (cells g))"

text \<open>The public coordinates, the value of a public cell, and the grid after a write.\<close>

definition inb :: "Grid \<Rightarrow> int \<Rightarrow> int \<Rightarrow> bool" where
  "inb g j i = (0 \<le> j \<and> j < height g \<and> 0 \<le> i \<and> i < width g)"

definition pub :: "Grid \<Rightarrow> int \<Rightarrow> int \<Rightarrow> int" where
  "pub g j i = cell_at g (j + 1) (i + 1)"

definition put :: "Grid \<Rightarrow> int \<Rightarrow> int \<Rightarrow> int \<Rightarrow> Grid" where
  "put g j i it =
     g\<lparr>cells := (cells g)[nat (j + 1) := (cells g ! nat (j + 1))[nat (i + 1) := it]]\<rparr>"

text \<open>
  The two pairs of accessors of \<open>_get_params_for_direction\<close>: the direct one
  (\<open>tr = False\<close>, for LEFT and RIGHT) and the transposed one (\<open>tr = True\<close>, for UP and
  DOWN), with the coordinates, values and writes seen through them. A line is a row of
  the grid for the direct accessors and a column for the transposed ones.
\<close>

definition tget :: "bool \<Rightarrow> getter" where
  "tget tr = (if tr then (\<lambda>g j i. get g i j) else get)"

definition tset :: "bool \<Rightarrow> setter" where
  "tset tr = (if tr then (\<lambda>g j i it. set_cell g i j it) else set_cell)"

definition tinb :: "bool \<Rightarrow> Grid \<Rightarrow> int \<Rightarrow> int \<Rightarrow> bool" where
  "tinb tr g row c = (if tr then inb g c row else inb g row c)"

definition tval :: "bool \<Rightarrow> Grid \<Rightarrow> int \<Rightarrow> int \<Rightarrow> int" where
  "tval tr g row c = (if tr then pub g c row else pub g row c)"

definition tput :: "bool \<Rightarrow> Grid \<Rightarrow> int \<Rightarrow> int \<Rightarrow> int \<Rightarrow> Grid" where
  "tput tr g row c it = (if tr then put g c row it else put g row c it)"

definition line_len :: "bool \<Rightarrow> Grid \<Rightarrow> int" where
  "line_len tr g = (if tr then height g else width g)"

definition line_count :: "bool \<Rightarrow> Grid \<Rightarrow> int" where
  "line_count tr g = (if tr then width g else height g)"

text \<open>
  The lines of a grid as lists of values: its rows for the direct accessors, its columns
  for the transposed ones; and the sum of the values of one line.
\<close>

definition grid_lines :: "bool \<Rightarrow> Grid \<Rightarrow> int list list" where
  "grid_lines tr g =
     map (\<lambda>row. map (\<lambda>c. tval tr g row c) [0..line_len tr g - 1]) [0..line_count tr g - 1]"

definition line_sum :: "bool \<Rightarrow> Grid \<Rightarrow> int \<Rightarrow> int" where
  "line_sum tr g row = sum_list (map (\<lambda>c. tval tr g row c) [0..line_len tr g - 1])"

text \<open>
  Every cell seen through the accessors holds \<open>EMPTY\<close> or a positive value (\<open>tiles\<close>,
  and \<open>tiles_only\<close> on the sequence of cell values); every cell of the first grid is at
  most some cell of the second (\<open>below\<close>), so that the maximum does not decrease.
\<close>

definition tiles :: "bool \<Rightarrow> Grid \<Rightarrow> bool" where
  "tiles tr g = (\<forall>r c. tinb tr g r c \<longrightarrow> 0 \<le> tval tr g r c)"

definition below :: "bool \<Rightarrow> Grid \<Rightarrow> Grid \<Rightarrow> bool" where
  "below tr g g' =
     (\<forall>r c. tinb tr g r c \<longrightarrow> (\<exists>r' c'. tinb tr g' r' c' \<and> tval tr g r c \<le> tval tr g' r' c'))"

definition tiles_only :: "Grid \<Rightarrow> bool" where
  "tiles_only g = list_all (\<lambda>v. 0 \<le> v) (cell_values g)"

text \<open>
  The games reached from a constructor with a spawn value that is \<open>EMPTY\<close> or positive
  by calls of \<open>start\<close> and completed calls of \<open>slam\<close>, with the number of completed
  slams. A \<open>slam\<close> that raises ends the game: the driver (main.py) does not catch it.
\<close>

inductive played :: "nat \<Rightarrow> Game \<Rightarrow> bool" where
  new: "Game_init w h goal_arg iv = Inr gm \<Longrightarrow> 0 \<le> iv \<Longrightarrow> played 0 gm"
| started: "played n gm \<Longrightarrow> start r1 r2 gm = Inr gm' \<Longrightarrow> played n gm'"
| slammed: "played n gm \<Longrightarrow> slam d r gm = Some (Inr gm') \<Longrightarrow> played (Suc n) gm'"



text \<open>
  The lines of a grid listed from the edge where the scan of a direction starts: the
  value at offset \<open>k\<close> of a line is at position \<open>start + k * delta\<close>. A line is packed when
  nothing but \<open>EMPTY\<close> follows its first \<open>EMPTY\<close> value; \<open>packed_at\<close> says so of one line
  of the grid, with the number \<open>p\<close> of values before the first \<open>EMPTY\<close>.
\<close>

definition scan_pos :: "int \<Rightarrow> int \<Rightarrow> int \<Rightarrow> int" where
  "scan_pos s delta k = s + k * delta"




text \<open>
  The grid states reached from the constructor by calls of \<open>set\<close> that store \<open>EMPTY\<close> or
  a positive value.
\<close>

inductive tile_reachable :: "Grid \<Rightarrow> bool" where
  constructed: "Grid_init w h = Inr g \<Longrightarrow> tile_reachable g"
| stored: "tile_reachable g \<Longrightarrow> 0 \<le> it \<Longrightarrow> set_cell g j i it = Inr g' \<Longrightarrow> tile_reachable g'"

section \<open>Concrete games\<close>

text \<open>A grid of one cell, empty, then holding a tile, then holding the sentinel.\<close>

definition one_cell :: Grid where
  "one_cell = \<lparr>width = 1, height = 1, cells = [[-1, -1, -1], [-1, 0, -1], [-1, -1, -1]]\<rparr>"

definition one_cell_tile :: Grid where
  "one_cell_tile = \<lparr>width = 1, height = 1, cells = [[-1, -1, -1], [-1, 2, -1], [-1, -1, -1]]\<rparr>"

definition one_cell_edge :: Grid where
  "one_cell_edge = \<lparr>width = 1, height = 1, cells = [[-1, -1, -1], [-1, -1, -1], [-1, -1, -1]]\<rparr>"

text \<open>A game two cells wide and one cell high, new and after \<open>start\<close>.\<close>

definition wide_new :: Game where
  "wide_new = \<lparr>grid = \<lparr>width = 2, height = 1,
       cells = [[-1, -1, -1, -1], [-1, 0, 0, -1], [-1, -1, -1, -1]]\<rparr>,
     initial_value = 2, goal = 2048, best_value = 0\<rparr>"

definition wide_started :: Game where
  "wide_started = \<lparr>grid = \<lparr>width = 2, height = 1,
       cells = [[-1, -1, -1, -1], [-1, 2, 2, -1], [-1, -1, -1, -1]]\<rparr>,
     initial_value = 2, goal = 2048, best_value = 0\<rparr>"

text \<open>
  A game two cells wide and three cells high, with the goal 2: new, after \<open>start\<close> has
  placed its tiles at \<open>(2, 1)\<close> and \<open>(0, 0)\<close>, after \<open>slam(LEFT)\<close> has then placed its
  tile at \<open>(0, 1)\<close>, and after a second \<open>slam(LEFT)\<close> has done the same.
\<close>

definition tall_new :: Game where
  "tall_new = \<lparr>grid = \<lparr>width = 2, height = 3,
       cells = [[-1, -1, -1, -1], [-1, 0, 0, -1], [-1, 0, 0, -1], [-1, 0, 0, -1],
                [-1, -1, -1, -1]]\<rparr>,
     initial_value = 2, goal = 2, best_value = 0\<rparr>"

definition tall_started :: Game where
  "tall_started = \<lparr>grid = \<lparr>width = 2, height = 3,
       cells = [[-1, -1, -1, -1], [-1, 2, 0, -1], [-1, 0, 0, -1], [-1, 0, 2, -1],
                [-1, -1, -1, -1]]\<rparr>,
     initial_value = 2, goal = 2, best_value = 0\<rparr>"

definition tall_slammed_twice :: Game where
  "tall_slammed_twice = \<lparr>grid = \<lparr>width = 2, height = 3,
       cells = [[-1, -1, -1, -1], [-1, 4, 2, -1], [-1, 0, 0, -1], [-1, 0, 2, -1],
                [-1, -1, -1, -1]]\<rparr>,
     initial_value = 2, goal = 2, best_value = 4\<rparr>"

definition tall_slammed :: Game where
  "tall_slammed = \<lparr>grid = \<lparr>width = 2, height = 3,
       cells = [[-1, -1, -1, -1], [-1, 2, 2, -1], [-1, 0, 0, -1], [-1, 0, 2, -1],
                [-1, -1, -1, -1]]\<rparr>,
     initial_value = 2, goal = 2, best_value = 2\<rparr>"

text \<open>A square game with two pairs of equal tiles, and its grid after a combine to the left.\<close>

definition pair_game :: Game where
  "pair_game = \<lparr>grid = \<lparr>width = 2, height = 2,
       cells = [[-1, -1, -1, -1], [-1, 2, 2, -1], [-1, 4, 4, -1], [-1, -1, -1, -1]]\<rparr>,
     initial_value = 2, goal = 2048, best_value = 4\<rparr>"

definition pair_combined :: Grid where
  "pair_combined = \<lparr>width = 2, height = 2,
       cells = [[-1, -1, -1, -1], [-1, 4, 0, -1], [-1, 8, 0, -1], [-1, -1, -1, -1]]\<rparr>"

text \<open>
  A game of one cell with the spawn value \<open>-5\<close>: new, after \<open>start\<close>, and after
  \<open>slam(LEFT)\<close>.
\<close>

definition neg_new :: Game where
  "neg_new = \<lparr>grid = one_cell, initial_value = -5, goal = 2048, best_value = 0\<rparr>"

definition neg_started :: Game where
  "neg_started = \<lparr>grid = \<lparr>width = 1, height = 1, cells = [[-1, -1, -1], [-1, -5, -1], [-1, -1, -1]]\<rparr>,
     initial_value = -5, goal = 2048, best_value = 0\<rparr>"

definition neg_slammed :: Game where
  "neg_slammed = \<lparr>grid = \<lparr>width = 1, height = 1, cells = [[-1, -1, -1], [-1, -5, -1], [-1, -1, -1]]\<rparr>,
     initial_value = -5, goal = 2048, best_value = -5\<rparr>"


section \<open>The accessors\<close>

lemma get_eq: "get g j i = (if inb g j i then Inr (pub g j i) else Inl IndexError)"
  by (auto simp: get_def range_check_def to_grid_indices_def on_grid_def inb_def pub_def)

lemma set_cell_eq: "set_cell g j i it = (if inb g j i then Inr (put g j i it) else Inl IndexError)"
  by (auto simp: set_cell_def range_check_def to_grid_indices_def on_grid_def inb_def put_def)

lemma put_shape [simp]: "width (put g j i it) = width g" "height (put g j i it) = height g"
  by (simp_all add: put_def)

lemma inb_put [simp]: "inb (put g j i it) j' i' = inb g j' i'"
  by (simp add: inb_def)

text \<open>
  The indices that pass \<open>_range_check\<close>, and those of \<open>_cell_indices\<close>, lie inside the
  backing list of a well-formed grid.
\<close>

lemma on_grid_in_backing:
  assumes "wf_grid g" "on_grid g j i"
  shows "nat j < length (cells g) \<and> nat i < length (cells g ! nat j)"
proof -
  have len: "nat j < length (cells g)"
    using assms by (simp add: wf_grid_def on_grid_def)
  then have "cells g ! nat j \<in> set (cells g)" by simp
  then have "length (cells g ! nat j) = nat (width g + 2)"
    using assms by (simp add: wf_grid_def list_all_iff)
  then show ?thesis using len assms by (simp add: on_grid_def)
qed

lemma cell_indices_on_grid: "(j, i) \<in> set (cell_indices g) \<Longrightarrow> on_grid g j i"
  by (auto simp: cell_indices_def on_grid_def)

lemma wf_put: "wf_grid g \<Longrightarrow> wf_grid (put g j i it)"
proof (cases "nat (j + 1) < length (cells g)")
  case True
  then have "cells g ! nat (j + 1) \<in> set (cells g)" by simp
  then show "wf_grid g \<Longrightarrow> wf_grid (put g j i it)"
    by (auto simp: wf_grid_def put_def list_all_iff dest!: set_update_subset_insert[THEN subsetD])
next
  case False
  then have "put g j i it = g"
    by (simp add: put_def list_update_beyond)
  then show "wf_grid g \<Longrightarrow> wf_grid (put g j i it)"
    by simp
qed

lemma pub_put:
  assumes "wf_grid g" "inb g j i" "inb g j' i'"
  shows "pub (put g j i it) j' i' = (if j' = j \<and> i' = i then it else pub g j' i')"
proof -
  have "on_grid g (j + 1) (i + 1)"
    using assms(2) by (simp add: on_grid_def inb_def)
  from on_grid_in_backing [OF assms(1) this]
  have len: "nat (j + 1) < length (cells g)"
    and len2: "nat (i + 1) < length (cells g ! nat (j + 1))"
    by simp_all
  have neq: "(nat (j' + 1) = nat (j + 1)) = (j' = j)" "(nat (i' + 1) = nat (i + 1)) = (i' = i)"
    using assms by (auto simp: inb_def)
  show ?thesis
    using len len2 neq by (auto simp: pub_def put_def cell_at_def nth_list_update)
qed

lemma tget_eq:
  "tget tr g row c = (if tinb tr g row c then Inr (tval tr g row c) else Inl IndexError)"
  by (simp add: tget_def tinb_def tval_def get_eq)

lemma tset_eq:
  "tset tr g row c it = (if tinb tr g row c then Inr (tput tr g row c it) else Inl IndexError)"
  by (simp add: tset_def tinb_def tput_def set_cell_eq)

lemma tput_shape [simp]:
  "width (tput tr g row c it) = width g" "height (tput tr g row c it) = height g"
  by (simp_all add: tput_def)

lemma tinb_tput [simp]: "tinb tr (tput tr' g row c it) row' c' = tinb tr g row' c'"
  by (simp add: tinb_def tput_def)

lemma wf_tput: "wf_grid g \<Longrightarrow> wf_grid (tput tr g row c it)"
  by (simp add: tput_def wf_put)

lemma tval_tput:
  "wf_grid g \<Longrightarrow> tinb tr g row c \<Longrightarrow> tinb tr g row' c' \<Longrightarrow>
   tval tr (tput tr g row c it) row' c' = (if row' = row \<and> c' = c then it else tval tr g row' c')"
  by (auto simp: tval_def tput_def tinb_def pub_put)

lemma tinb_iff:
  "tinb tr g row c = (0 \<le> row \<and> row < line_count tr g \<and> 0 \<le> c \<and> c < line_len tr g)"
  by (auto simp: tinb_def inb_def line_count_def line_len_def)

text \<open>The constructor builds a well-formed grid of empty cells.\<close>

lemma Grid_init_wf:
  assumes "Grid_init w h = Inr g"
  shows "wf_grid g" "width g = w" "height g = h" "inb g j i \<Longrightarrow> pub g j i = EMPTY"
proof -
  from assms have pos: "0 < w" "0 < h"
    and g: "g = \<lparr>width = w, height = h, cells = [replicate (nat (w + 2)) EDGE]
          @ replicate (nat h) ([EDGE] @ replicate (nat w) EMPTY @ [EDGE])
          @ [replicate (nat (w + 2)) EDGE]\<rparr>"
    by (auto simp: Grid_init_def makegrid_def Let_def split: if_splits)
  show "wf_grid g"
    using pos by (auto simp: g wf_grid_def list_all_iff nat_add_distrib)
  show "width g = w" "height g = h"
    by (simp_all add: g)
  show "pub g j i = EMPTY" if "inb g j i"
  proof -
    from that have j: "0 \<le> j" "j < h" and i: "0 \<le> i" "i < w"
      by (simp_all add: inb_def g)
    have nj: "nat (j + 1) = Suc (nat j)" and ni: "nat (i + 1) = Suc (nat i)"
      using j i by (simp_all add: nat_add_distrib)
    have "nat j < nat h" "nat i < nat w"
      using j i by simp_all
    then show ?thesis
      by (simp add: pub_def cell_at_def g nj ni nth_append)
  qed
qed

lemma tile_reachable_inv:
  "tile_reachable g \<Longrightarrow> wf_grid g \<and> (\<forall>j i. inb g j i \<longrightarrow> 0 \<le> pub g j i)"
proof (induction rule: tile_reachable.induct)
  case (constructed w h g)
  then show ?case
    using Grid_init_wf [of w h g] by (simp add: EMPTY_def)
next
  case (stored g it j i g')
  then show ?case
    by (auto simp: set_cell_eq wf_put pub_put split: if_splits)
qed

lemma neighbors_eq:
  "neighbors g j i directions =
     map (\<lambda>dir. (j + fst dir, i + snd dir))
       (filter (\<lambda>dir. inb g (j + fst dir) (i + snd dir)) directions)"
  by (induction directions)
    (auto simp: neighbors_def to_grid_indices_def to_view_indices_def apply_dir_def
      on_grid_def inb_def split: prod.splits)

section \<open>Properties of the grid\<close>

text \<open>
  Claim C3, as amended. \<open>set\<close> checks the coordinates and not the value: at public
  coordinates of a well-formed grid it stores any integer, the sentinel \<open>EDGE\<close> included,
  and \<open>get\<close> returns it afterwards. In every grid state reached from the constructor by
  calls of \<open>set\<close> whose values are \<open>EMPTY\<close> or positive, every public cell holds \<open>EMPTY\<close>
  or a positive value, and \<open>get\<close> at public coordinates does not return \<open>EDGE\<close>.
\<close>

theorem public_cells_hold_tiles:
  assumes "tile_reachable g" and "inb g j i"
  shows "(\<exists>v. get g j i = Inr v \<and> 0 \<le> v \<and> v \<noteq> EDGE)
     \<and> (\<exists>g'. set_cell g j i it = Inr g' \<and> get g' j i = Inr it)"
proof -
  from tile_reachable_inv [OF assms(1)] assms(2)
  have wf: "wf_grid g" and nonneg: "0 \<le> pub g j i"
    by simp_all
  have "get g j i = Inr (pub g j i)"
    using assms(2) by (simp add: get_eq)
  moreover have "pub g j i \<noteq> EDGE"
    using nonneg by (simp add: EDGE_def)
  moreover have "set_cell g j i it = Inr (put g j i it)"
    using assms(2) by (simp add: set_cell_eq)
  moreover have "get (put g j i it) j i = Inr it"
    using wf assms(2) by (simp add: get_eq pub_put)
  ultimately show ?thesis
    using nonneg by simp
qed

theorem public_cells_hold_tiles_witness:
  "tile_reachable one_cell_tile \<and> inb one_cell_tile 0 0
   \<and> (\<exists>v. get one_cell_tile 0 0 = Inr v \<and> 0 \<le> v \<and> v \<noteq> EDGE)
   \<and> (\<exists>g'. set_cell one_cell_tile 0 0 EDGE = Inr g' \<and> get g' 0 0 = Inr EDGE)"
proof -
  have "Grid_init 1 1 = Inr one_cell"
    by code_simp
  then have r0: "tile_reachable one_cell"
    by (rule constructed)
  have s0: "set_cell one_cell 0 0 2 = Inr one_cell_tile"
    by code_simp
  have r: "tile_reachable one_cell_tile"
    using stored [OF r0 _ s0] by simp
  have b: "inb one_cell_tile 0 0"
    by code_simp
  show ?thesis
    using r b public_cells_hold_tiles [OF r b, of EDGE] by simp
qed

text \<open>
  Claim C3 as stated fails: on the new grid of one cell, \<open>set(0, 0, EDGE)\<close> succeeds
  and \<open>get(0, 0)\<close> then returns \<open>EDGE\<close>.
\<close>

theorem edge_stored_counterexample:
  "Grid_init 1 1 = Inr one_cell \<and> set_cell one_cell 0 0 EDGE = Inr one_cell_edge
   \<and> get one_cell_edge 0 0 = Inr EDGE"
  by code_simp

text \<open>
  Claim C9. \<open>neighbors\<close> checks no bound on its coordinates and raises nothing: for
  every pair of integers \<open>(j, i)\<close> it yields, in the order of the directions given, the
  positions \<open>(j, i) + dir\<close> that lie in the public grid, also when \<open>(j, i)\<close> itself does
  not.
\<close>

theorem neighbors_unchecked:
  "neighbors g j i directions =
     map (\<lambda>dir. (j + fst dir, i + snd dir))
       (filter (\<lambda>dir. inb g (j + fst dir) (i + snd dir)) directions)"
  by (rule neighbors_eq)

text \<open>The position \<open>(-1, 0)\<close>, above the grid of one cell, has the public neighbour below it.\<close>

lemma neighbors_above_grid: "neighbors one_cell (-1) 0 DIRECTIONS = [(0, 0)]"
  by code_simp

section \<open>The sequences of available and occupied cells\<close>

lemma cell_indices_product: "cell_indices g = List.product [1..height g] [1..width g]"
  by (simp add: cell_indices_def product_concat_map)

lemma view_of_cell_indices:
  "((j, i) \<in> (\<lambda>(a, b). to_view_indices a b) ` {p \<in> set (cell_indices g). P p})
     = (inb g j i \<and> P (j + 1, i + 1))"
proof
  assume "(j, i) \<in> (\<lambda>(a, b). to_view_indices a b) ` {p \<in> set (cell_indices g). P p}"
  then obtain a b where "(a, b) \<in> set (cell_indices g)" "P (a, b)" "j = a - 1" "i = b - 1"
    by (auto simp: to_view_indices_def)
  then show "inb g j i \<and> P (j + 1, i + 1)"
    by (auto simp: cell_indices_product inb_def)
next
  assume a: "inb g j i \<and> P (j + 1, i + 1)"
  then have "(j + 1, i + 1) \<in> {p \<in> set (cell_indices g). P p}"
    by (auto simp: cell_indices_product inb_def)
  moreover have "(j, i) = (\<lambda>(a, b). to_view_indices a b) (j + 1, i + 1)"
    by (simp add: to_view_indices_def)
  ultimately show "(j, i) \<in> (\<lambda>(a, b). to_view_indices a b) ` {p \<in> set (cell_indices g). P p}"
    by (rule rev_image_eqI)
qed

lemma available_cells_iff: "((j, i) \<in> set (available_cells g)) = (get g j i = Inr EMPTY)"
  using view_of_cell_indices [of j i g "\<lambda>(a, b). cell_at g a b = EMPTY"]
  by (simp add: available_cells_def get_eq pub_def)

lemma occupied_cells_iff:
  "((j, i) \<in> set (occupied_cells g)) = (\<exists>v. get g j i = Inr v \<and> v \<noteq> EMPTY \<and> v \<noteq> EDGE)"
  using view_of_cell_indices [of j i g "\<lambda>(a, b). cell_at g a b \<noteq> EMPTY \<and> cell_at g a b \<noteq> EDGE"]
  by (simp add: occupied_cells_def get_eq pub_def)

lemma distinct_cell_indices: "distinct (cell_indices g)"
  by (simp add: cell_indices_product distinct_product)

lemma inj_view: "inj_on (\<lambda>(j, i). to_view_indices j i) A"
  by (auto simp: inj_on_def to_view_indices_def)

lemma distinct_available: "distinct (available_cells g)"
  by (simp add: available_cells_def distinct_map distinct_cell_indices inj_view)

lemma distinct_occupied: "distinct (occupied_cells g)"
  by (simp add: occupied_cells_def distinct_map distinct_cell_indices inj_view)

text \<open>
  Claim C6, as amended. The two sequences list public coordinates only, each at most
  once, and no coordinate is in both: a coordinate is in \<open>available_cells\<close> exactly
  when its cell holds \<open>EMPTY\<close>, and in \<open>occupied_cells\<close> exactly when its cell holds
  neither \<open>EMPTY\<close> nor \<open>EDGE\<close> (the guard of \<open>occupied_cells\<close>). When no public cell
  holds \<open>EDGE\<close>, the two sequences together are the public coordinates.
\<close>

theorem cells_partition:
  "distinct (available_cells g) \<and> distinct (occupied_cells g)
   \<and> set (available_cells g) \<inter> set (occupied_cells g) = {}
   \<and> (\<forall>j i. ((j, i) \<in> set (available_cells g)) = (get g j i = Inr EMPTY))
   \<and> (\<forall>j i. ((j, i) \<in> set (occupied_cells g))
        = (\<exists>v. get g j i = Inr v \<and> v \<noteq> EMPTY \<and> v \<noteq> EDGE))
   \<and> ((\<forall>j i. get g j i \<noteq> Inr EDGE) \<longrightarrow>
        set (available_cells g) \<union> set (occupied_cells g) = {(j, i). inb g j i})"
proof -
  have "set (available_cells g) \<inter> set (occupied_cells g) = {}"
    by (auto simp: available_cells_iff occupied_cells_iff)
  moreover have "set (available_cells g) \<union> set (occupied_cells g) = {(j, i). inb g j i}"
    if "\<forall>j i. get g j i \<noteq> Inr EDGE"
    using that by (auto simp: available_cells_iff occupied_cells_iff get_eq split: if_splits)
  ultimately show ?thesis
    by (simp add: distinct_available distinct_occupied available_cells_iff occupied_cells_iff)
qed

theorem cells_partition_witness:
  "(\<forall>j i. get one_cell_tile j i \<noteq> Inr EDGE)
   \<and> set (available_cells one_cell_tile) \<union> set (occupied_cells one_cell_tile) = {(j, i). inb one_cell_tile j i}
   \<and> occupied_cells one_cell_tile = [(0, 0)]"
proof -
  have h: "\<forall>j i. get one_cell_tile j i \<noteq> Inr EDGE"
    by (auto simp: get_eq inb_def pub_def cell_at_def one_cell_tile_def EDGE_def)
  have "occupied_cells one_cell_tile = [(0, 0)]"
    by code_simp
  then show ?thesis
    using h cells_partition [of one_cell_tile] by simp
qed

text \<open>
  Claim C6 as stated fails: after \<open>set(0, 0, EDGE)\<close> on the grid of one cell, the public
  coordinate \<open>(0, 0)\<close> is in neither sequence.
\<close>

theorem edge_cell_unlisted_counterexample:
  "set_cell one_cell 0 0 EDGE = Inr one_cell_edge \<and> get one_cell_edge 0 0 = Inr EDGE
   \<and> available_cells one_cell_edge = [] \<and> occupied_cells one_cell_edge = []"
  by code_simp

section \<open>Random placement\<close>

lemma cell_at_put:
  assumes "wf_grid g" "inb g j i" "0 \<le> a" "0 \<le> b" "(a, b) \<noteq> (j + 1, i + 1)"
  shows "cell_at (put g j i it) a b = cell_at g a b"
proof (cases "a = j + 1")
  case True
  have "on_grid g (j + 1) (i + 1)"
    using assms(2) by (simp add: on_grid_def inb_def)
  from on_grid_in_backing [OF assms(1) this]
  have len: "nat (j + 1) < length (cells g)" by simp
  have "nat b \<noteq> nat (i + 1)"
    using assms True by (auto simp: inb_def)
  then show ?thesis
    using len True by (simp add: cell_at_def put_def)
next
  case False
  then have "nat a \<noteq> nat (j + 1)"
    using assms by (auto simp: inb_def)
  then show ?thesis
    by (simp add: cell_at_def put_def)
qed

lemma place_random_cases:
  "place_random r gm = Inr gm \<and> available_cells (grid gm) = []
   \<or> (\<exists>j i. (j, i) \<in> set (available_cells (grid gm))
         \<and> place_random r gm = Inr (gm\<lparr>grid := put (grid gm) j i (initial_value gm)\<rparr>))"
proof (cases "available_cells (grid gm)")
  case Nil
  then show ?thesis by (simp add: place_random_def)
next
  case (Cons c cs)
  obtain j i where p: "(c # cs) ! (r mod length (c # cs)) = (j, i)"
    by (cases "(c # cs) ! (r mod length (c # cs))")
  have "(c # cs) ! (r mod length (c # cs)) \<in> set (c # cs)"
    by (rule nth_mem) simp
  then have mem: "(j, i) \<in> set (available_cells (grid gm))"
    using p Cons by simp
  then have "inb (grid gm) j i"
    by (simp add: available_cells_iff get_eq split: if_splits)
  then have "place_random r gm = Inr (gm\<lparr>grid := put (grid gm) j i (initial_value gm)\<rparr>)"
    using p Cons by (simp add: place_random_def set_cell_eq)
  with mem show ?thesis by blast
qed

text \<open>
  Claim C10. On a well-formed grid a random placement raises nothing and changes at
  most one cell. When no public cell is \<open>EMPTY\<close> the game is returned as it is. When
  some public cell is \<open>EMPTY\<close>, one public cell that holds \<open>EMPTY\<close> comes to hold the
  spawn value \<open>initial_value\<close>, and every other cell of the backing list (the border
  included), the shape of the grid and the other attributes of the game keep their
  values.
\<close>

theorem place_random_one_cell:
  assumes "wf_grid (grid gm)"
  shows "((\<forall>j i. get (grid gm) j i \<noteq> Inr EMPTY) \<longrightarrow> place_random r gm = Inr gm)
   \<and> ((\<exists>j i. get (grid gm) j i = Inr EMPTY) \<longrightarrow>
        (\<exists>j i gm'. place_random r gm = Inr gm'
           \<and> get (grid gm) j i = Inr EMPTY
           \<and> get (grid gm') j i = Inr (initial_value gm)
           \<and> (\<forall>j' i'. (j', i') \<noteq> (j, i) \<longrightarrow> get (grid gm') j' i' = get (grid gm) j' i')
           \<and> (\<forall>a b. 0 \<le> a \<and> 0 \<le> b \<and> (a, b) \<noteq> (j + 1, i + 1) \<longrightarrow>
                 cell_at (grid gm') a b = cell_at (grid gm) a b)
           \<and> width (grid gm') = width (grid gm) \<and> height (grid gm') = height (grid gm)
           \<and> initial_value gm' = initial_value gm \<and> goal gm' = goal gm
           \<and> best_value gm' = best_value gm))"
proof -
  let ?g = "grid gm"
  have none: "place_random r gm = Inr gm" if "\<forall>j i. get ?g j i \<noteq> Inr EMPTY"
  proof -
    have "p \<notin> set (available_cells ?g)" for p
      using that by (cases p) (simp add: available_cells_iff)
    then have "available_cells ?g = []"
      by (cases "available_cells ?g") auto
    then show ?thesis
      by (simp add: place_random_def)
  qed
  have some: "\<exists>j i gm'. place_random r gm = Inr gm'
           \<and> get ?g j i = Inr EMPTY
           \<and> get (grid gm') j i = Inr (initial_value gm)
           \<and> (\<forall>j' i'. (j', i') \<noteq> (j, i) \<longrightarrow> get (grid gm') j' i' = get ?g j' i')
           \<and> (\<forall>a b. 0 \<le> a \<and> 0 \<le> b \<and> (a, b) \<noteq> (j + 1, i + 1) \<longrightarrow>
                 cell_at (grid gm') a b = cell_at ?g a b)
           \<and> width (grid gm') = width ?g \<and> height (grid gm') = height ?g
           \<and> initial_value gm' = initial_value gm \<and> goal gm' = goal gm
           \<and> best_value gm' = best_value gm"
    if "\<exists>j i. get ?g j i = Inr EMPTY"
  proof -
    from that have "available_cells ?g \<noteq> []"
      using available_cells_iff [of _ _ ?g] by fastforce
    with place_random_cases [of r gm] obtain j i
      where mem: "(j, i) \<in> set (available_cells ?g)"
        and res: "place_random r gm = Inr (gm\<lparr>grid := put ?g j i (initial_value gm)\<rparr>)"
      by auto
    from mem have e: "get ?g j i = Inr EMPTY"
      by (simp add: available_cells_iff)
    then have b: "inb ?g j i"
      by (simp add: get_eq split: if_splits)
    let ?gm' = "gm\<lparr>grid := put ?g j i (initial_value gm)\<rparr>"
    have "get (grid ?gm') j i = Inr (initial_value gm)"
      using assms b by (simp add: get_eq pub_put)
    moreover have "\<forall>j' i'. (j', i') \<noteq> (j, i) \<longrightarrow> get (grid ?gm') j' i' = get ?g j' i'"
      using assms b by (auto simp: get_eq pub_put)
    moreover have "\<forall>a b. 0 \<le> a \<and> 0 \<le> b \<and> (a, b) \<noteq> (j + 1, i + 1) \<longrightarrow>
                 cell_at (grid ?gm') a b = cell_at ?g a b"
      using assms b by (simp add: cell_at_put)
    ultimately show ?thesis
      using res e by (intro exI [of _ j] exI [of _ i] exI [of _ ?gm']) simp
  qed
  from none some show ?thesis by blast
qed

theorem place_random_one_cell_witness:
  "wf_grid (grid tall_started)
   \<and> (\<exists>j i. get (grid tall_started) j i = Inr EMPTY)
   \<and> (\<exists>j i gm'. place_random 1 tall_started = Inr gm'
           \<and> get (grid tall_started) j i = Inr EMPTY
           \<and> get (grid gm') j i = Inr (initial_value tall_started)
           \<and> (\<forall>j' i'. (j', i') \<noteq> (j, i) \<longrightarrow> get (grid gm') j' i' = get (grid tall_started) j' i'))
   \<and> wf_grid (grid wide_started)
   \<and> (\<forall>j i. get (grid wide_started) j i \<noteq> Inr EMPTY)
   \<and> place_random 1 wide_started = Inr wide_started"
proof -
  have w1: "wf_grid (grid tall_started)" and w2: "wf_grid (grid wide_started)"
    by code_simp+
  have e1: "\<exists>j i. get (grid tall_started) j i = Inr EMPTY"
  proof -
    have "get (grid tall_started) 0 1 = Inr EMPTY" by code_simp
    then show ?thesis by blast
  qed
  have e2: "\<forall>j i. get (grid wide_started) j i \<noteq> Inr EMPTY"
  proof -
    have "available_cells (grid wide_started) = []" by code_simp
    then have "\<And>j i. (j, i) \<notin> set (available_cells (grid wide_started))" by simp
    then show ?thesis by (simp add: available_cells_iff)
  qed
  from place_random_one_cell [OF w1, of 1] e1
  have "\<exists>j i gm'. place_random 1 tall_started = Inr gm'
           \<and> get (grid tall_started) j i = Inr EMPTY
           \<and> get (grid gm') j i = Inr (initial_value tall_started)
           \<and> (\<forall>j' i'. (j', i') \<noteq> (j, i) \<longrightarrow> get (grid gm') j' i' = get (grid tall_started) j' i')"
    by blast
  moreover from place_random_one_cell [OF w2, of 1] e2
  have "place_random 1 wide_started = Inr wide_started"
    by blast
  ultimately show ?thesis
    using w1 w2 e1 e2 by blast
qed

section \<open>Directions that are not recognized\<close>

lemma neighbors_inb: "(a, b) \<in> set (neighbors g j i ds) \<Longrightarrow> inb g a b"
  by (auto simp: neighbors_eq)

lemma neighbor_scan_total:
  "(\<And>a b. (a, b) \<in> set ps \<Longrightarrow> inb g a b) \<Longrightarrow> \<exists>b. neighbor_scan g current ps = Inr b"
  by (induction g current ps rule: neighbor_scan.induct) (auto simp: get_eq)

lemma position_can_move_total: "inb (grid gm) j i \<Longrightarrow> \<exists>b. position_can_move gm j i ds = Inr b"
  unfolding position_can_move_def
  using neighbor_scan_total [of "neighbors (grid gm) j i ds" "grid gm", OF neighbors_inb]
  by (simp add: get_eq)

lemma position_scan_total:
  "(\<And>a b. (a, b) \<in> set ps \<Longrightarrow> inb (grid gm) b a) \<Longrightarrow> \<exists>b. position_scan gm ds ps = Inr b"
proof (induction gm ds ps rule: position_scan.induct)
  case (1 gm directions)
  then show ?case by auto
next
  case (2 gm directions i j rest)
  then have "inb (grid gm) j i" by simp
  from position_can_move_total [OF this, of directions] 2 show ?case
    by (auto simp: get_eq)
qed

lemma any_can_move_total: "\<exists>b. any_can_move gm ds = Inr b"
proof -
  let ?ps = "concat (map (\<lambda>i. map (\<lambda>j. (i, j)) [0..height (grid gm) - 1]) [0..width (grid gm) - 1])"
  have "\<And>a b. (a, b) \<in> set ?ps \<Longrightarrow> inb (grid gm) b a"
    by (auto simp: inb_def)
  from position_scan_total [of ?ps gm ds, OF this] show ?thesis
    by (simp add: any_can_move_def)
qed

text \<open>
  Claim C5, as amended. \<open>slam\<close> fails with ValueError (InvalidArgument) when its direction
  is not one of the four recognized vectors. \<open>any_can_move\<close> validates nothing: on a
  well-formed grid it returns a truth value for every list of direction vectors, which it
  uses as offsets.
\<close>

theorem direction_validation:
  "(d \<notin> set DIRECTIONS \<longrightarrow> slam d r gm = Some (Inl ValueError))
   \<and> (wf_grid (grid gm) \<longrightarrow> (\<exists>b. any_can_move gm ds = Inr b))"
  using any_can_move_total [of gm ds]
  by (simp add: slam_def validate_direction_def)

theorem direction_validation_witness:
  "(5, 5) \<notin> set DIRECTIONS \<and> slam (5, 5) 0 wide_started = Some (Inl ValueError)
   \<and> wf_grid (grid wide_started) \<and> (\<exists>b. any_can_move wide_started [(5, 5)] = Inr b)"
proof -
  have d: "(5, 5) \<notin> set DIRECTIONS"
    by (simp add: DIRECTIONS_def UP_def DOWN_def LEFT_def RIGHT_def)
  have w: "wf_grid (grid wide_started)"
    by code_simp
  show ?thesis
    using d w direction_validation [of "(5, 5)" 0 wide_started "[(5, 5)]"] by simp
qed

text \<open>
  Claim C5 as stated fails for \<open>any_can_move\<close>: with the unrecognized direction
  \<open>(5, 5)\<close> it returns \<open>False\<close> on the started game of two cells.
\<close>

theorem any_can_move_counterexample:
  "(5, 5) \<notin> set DIRECTIONS \<and> any_can_move wide_started [(5, 5)] = Inr False"
  by code_simp

section \<open>Grids that are not square\<close>

text \<open>
  Claim C1 fails on the code. \<open>_squash\<close> and \<open>_combine\<close> run \<open>for row in range(max_)\<close>,
  where \<open>max_\<close> is the length of a line, not the number of lines. On the game two cells
  wide and one cell high, after \<open>start\<close>, \<open>slam(LEFT)\<close> reads row 1 of a grid of one row
  and fails with IndexError (OutOfBounds).
\<close>

theorem slam_wide_grid_out_of_bounds:
  "Game_init 2 1 2048 2 = Inr wide_new \<and> start 0 0 wide_new = Inr wide_started
   \<and> slam LEFT 0 wide_started = Some (Inl IndexError)"
  by code_simp

text \<open>
  Claim C2 fails on the code, by the same loop bound. On the game two cells wide and
  three cells high, \<open>slam(LEFT)\<close> processes rows 0 and 1 only: row 2, which holds
  \<open>[0, 2]\<close>, is left as it is, its tile not moved to the left edge.
\<close>

theorem slam_tall_grid_row_unprocessed:
  "Game_init 2 3 2 2 = Inr tall_new \<and> start 5 0 tall_new = Inr tall_started
   \<and> rows (grid tall_started) = [[2, 0], [0, 0], [0, 2]]
   \<and> slam LEFT 0 tall_started = Some (Inr tall_slammed)
   \<and> rows (grid tall_slammed) = [[2, 2], [0, 0], [0, 2]]"
  by code_simp

section \<open>The loops of \<open>_squash\<close> and \<open>_combine\<close>\<close>

text \<open>
  One turn of each \<open>while\<close> loop, on a line that exists, and its end. With the steps
  \<open>1\<close> and \<open>-1\<close> both loops end without an error on such a line, and any property kept
  by each turn holds at the end.
\<close>

lemma squash_while_exit:
  assumes "\<not> (0 \<le> cur \<and> cur < M \<and> 0 \<le> le \<and> le < M)"
  shows "squash_while M delta get' set' row cur le g = Some (Inr g)"
  by (subst squash_while.simps) (simp only: assms if_False)

lemma squash_while_step:
  assumes "tinb tr g row cur" "tinb tr g row le" "line_len tr g = M"
  shows "squash_while M delta (tget tr) (tset tr) row cur le g =
    (if tval tr g row le = EMPTY then
       if 0 < tval tr g row cur then
         squash_while M delta (tget tr) (tset tr) row (cur + delta) (le + delta)
           (tput tr (tput tr g row le (tval tr g row cur)) row cur EMPTY)
       else squash_while M delta (tget tr) (tset tr) row (cur + delta) le g
     else squash_while M delta (tget tr) (tset tr) row (cur + delta) (le + delta) g)"
proof -
  have "0 \<le> cur \<and> cur < M \<and> 0 \<le> le \<and> le < M"
    using assms by (auto simp: tinb_iff)
  then show ?thesis
    using assms(1,2) by (subst squash_while.simps) (simp add: tget_eq tset_eq)
qed

lemma squash_while_error:
  assumes "0 \<le> cur" "cur < M" "0 \<le> le" "le < M" "\<not> tinb tr g row le"
  shows "squash_while M delta (tget tr) (tset tr) row cur le g = Some (Inl IndexError)"
  by (subst squash_while.simps) (use assms in \<open>simp add: tget_eq\<close>)

lemma squash_while_rule:
  fixes I :: "int \<Rightarrow> int \<Rightarrow> Grid \<Rightarrow> bool"
  assumes d: "delta = 1 \<or> delta = -1"
    and row: "0 \<le> row" "row < line_count tr g0"
    and move: "\<And>cur le g. \<lbrakk>I cur le g; wf_grid g; width g = width g0; height g = height g0;
        tinb tr g row cur; tinb tr g row le; tval tr g row le = EMPTY; 0 < tval tr g row cur\<rbrakk>
      \<Longrightarrow> I (cur + delta) (le + delta)
            (tput tr (tput tr g row le (tval tr g row cur)) row cur EMPTY)"
    and skip: "\<And>cur le g. \<lbrakk>I cur le g; wf_grid g; width g = width g0; height g = height g0;
        tinb tr g row cur; tinb tr g row le; tval tr g row le = EMPTY; tval tr g row cur \<le> 0\<rbrakk>
      \<Longrightarrow> I (cur + delta) le g"
    and adv: "\<And>cur le g. \<lbrakk>I cur le g; wf_grid g; width g = width g0; height g = height g0;
        tinb tr g row cur; tinb tr g row le; tval tr g row le \<noteq> EMPTY\<rbrakk>
      \<Longrightarrow> I (cur + delta) (le + delta) g"
  shows "\<lbrakk>I cur le g; wf_grid g; width g = width g0; height g = height g0\<rbrakk> \<Longrightarrow>
    \<exists>g' cur' le'. squash_while (line_len tr g0) delta (tget tr) (tset tr) row cur le g = Some (Inr g')
      \<and> I cur' le' g'
      \<and> \<not> (0 \<le> cur' \<and> cur' < line_len tr g0 \<and> 0 \<le> le' \<and> le' < line_len tr g0)
      \<and> wf_grid g' \<and> width g' = width g0 \<and> height g' = height g0"
proof (induction "nat (if delta = 1 then line_len tr g0 - cur else cur + 1)"
    arbitrary: cur le g rule: less_induct)
  case less
  let ?M = "line_len tr g0"
  let ?sq = "squash_while ?M delta (tget tr) (tset tr) row"
  have shape: "line_len tr g = ?M" "line_count tr g = line_count tr g0"
    using less.prems by (simp_all add: line_len_def line_count_def)
  show ?case
  proof (cases "0 \<le> cur \<and> cur < ?M \<and> 0 \<le> le \<and> le < ?M")
    case False
    then have "?sq cur le g = Some (Inr g)"
      by (rule squash_while_exit)
    with False less.prems show ?thesis
      by blast
  next
    case True
    then have inb: "tinb tr g row cur" "tinb tr g row le"
      using row shape by (simp_all add: tinb_iff)
    have dec: "nat (if delta = 1 then ?M - (cur + delta) else cur + delta + 1)
         < nat (if delta = 1 then ?M - cur else cur + 1)"
      using d True by auto
    note step = squash_while_step [OF inb shape(1), of delta]
    consider (move) "tval tr g row le = EMPTY" "0 < tval tr g row cur"
      | (skip) "tval tr g row le = EMPTY" "tval tr g row cur \<le> 0"
      | (adv) "tval tr g row le \<noteq> EMPTY"
      by fastforce
    then show ?thesis
    proof cases
      case move
      let ?g2 = "tput tr (tput tr g row le (tval tr g row cur)) row cur EMPTY"
      have "I (cur + delta) (le + delta) ?g2"
        using less.prems inb move by (intro assms(4)) simp_all
      moreover have "wf_grid ?g2" "width ?g2 = width g0" "height ?g2 = height g0"
        using less.prems by (simp_all add: wf_tput)
      ultimately have "\<exists>g' cur' le'. ?sq (cur + delta) (le + delta) ?g2 = Some (Inr g')
          \<and> I cur' le' g' \<and> \<not> (0 \<le> cur' \<and> cur' < ?M \<and> 0 \<le> le' \<and> le' < ?M)
          \<and> wf_grid g' \<and> width g' = width g0 \<and> height g' = height g0"
        using dec by (intro less.hyps) simp_all
      then show ?thesis
        using step move by simp
    next
      case skip
      have "I (cur + delta) le g"
        using less.prems inb skip by (intro assms(5)) simp_all
      then have "\<exists>g' cur' le'. ?sq (cur + delta) le g = Some (Inr g')
          \<and> I cur' le' g' \<and> \<not> (0 \<le> cur' \<and> cur' < ?M \<and> 0 \<le> le' \<and> le' < ?M)
          \<and> wf_grid g' \<and> width g' = width g0 \<and> height g' = height g0"
        using dec less.prems by (intro less.hyps) simp_all
      then show ?thesis
        using step skip by simp
    next
      case adv
      have "I (cur + delta) (le + delta) g"
        using less.prems inb adv by (intro assms(6)) simp_all
      then have "\<exists>g' cur' le'. ?sq (cur + delta) (le + delta) g = Some (Inr g')
          \<and> I cur' le' g' \<and> \<not> (0 \<le> cur' \<and> cur' < ?M \<and> 0 \<le> le' \<and> le' < ?M)
          \<and> wf_grid g' \<and> width g' = width g0 \<and> height g' = height g0"
        using dec less.prems by (intro less.hyps) simp_all
      then show ?thesis
        using step adv by simp
    qed
  qed
qed

lemma combine_while_exit:
  assumes "\<not> bounds cur"
  shows "combine_while bounds delta get' set' row cur g = Some (Inr g)"
  by (subst combine_while.simps) (simp only: assms if_False)

lemma combine_while_step:
  assumes "tinb tr g row cur" "tinb tr g row (cur + delta)" "bounds cur"
  shows "combine_while bounds delta (tget tr) (tset tr) row cur g =
    (if tval tr g row cur \<noteq> EMPTY \<and> tval tr g row cur = tval tr g row (cur + delta) then
       combine_while bounds delta (tget tr) (tset tr) row (cur + delta * 2)
         (tput tr (tput tr g row cur (tval tr g row cur * 2)) row (cur + delta) EMPTY)
     else combine_while bounds delta (tget tr) (tset tr) row (cur + delta) g)"
  using assms by (subst combine_while.simps) (simp add: tget_eq tset_eq)

lemma combine_while_rule:
  fixes I :: "int \<Rightarrow> Grid \<Rightarrow> bool"
  assumes d: "delta = 1 \<and> bounds = (\<lambda>x. x < line_len tr g0 - 1) \<or> delta = -1 \<and> bounds = (\<lambda>x. 0 < x)"
    and row: "0 \<le> row" "row < line_count tr g0"
    and merge: "\<And>cur g. \<lbrakk>I cur g; wf_grid g; width g = width g0; height g = height g0;
        tinb tr g row cur; tinb tr g row (cur + delta); tval tr g row cur \<noteq> EMPTY;
        tval tr g row (cur + delta) = tval tr g row cur\<rbrakk>
      \<Longrightarrow> I (cur + delta * 2)
            (tput tr (tput tr g row cur (tval tr g row cur * 2)) row (cur + delta) EMPTY)"
    and keep: "\<And>cur g. \<lbrakk>I cur g; wf_grid g; width g = width g0; height g = height g0;
        tinb tr g row cur; tinb tr g row (cur + delta);
        \<not> (tval tr g row cur \<noteq> EMPTY \<and> tval tr g row cur = tval tr g row (cur + delta))\<rbrakk>
      \<Longrightarrow> I (cur + delta) g"
  shows "\<lbrakk>I cur g; wf_grid g; width g = width g0; height g = height g0;
      delta = 1 \<longrightarrow> 0 \<le> cur; delta = -1 \<longrightarrow> cur < line_len tr g0\<rbrakk> \<Longrightarrow>
    \<exists>g' cur'. combine_while bounds delta (tget tr) (tset tr) row cur g = Some (Inr g')
      \<and> I cur' g' \<and> \<not> bounds cur'
      \<and> wf_grid g' \<and> width g' = width g0 \<and> height g' = height g0"
proof (induction "nat (if delta = 1 then line_len tr g0 - cur else cur + 1)"
    arbitrary: cur g rule: less_induct)
  case less
  let ?M = "line_len tr g0"
  let ?cw = "combine_while bounds delta (tget tr) (tset tr) row"
  have shape: "line_len tr g = ?M" "line_count tr g = line_count tr g0"
    using less.prems by (simp_all add: line_len_def line_count_def)
  show ?case
  proof (cases "bounds cur")
    case False
    then have "?cw cur g = Some (Inr g)"
      by (rule combine_while_exit)
    with False less.prems show ?thesis
      by blast
  next
    case True
    then have range: "0 \<le> cur" "cur < ?M" "0 \<le> cur + delta" "cur + delta < ?M"
      using d less.prems(5,6) by auto
    then have inb: "tinb tr g row cur" "tinb tr g row (cur + delta)"
      using row shape by (simp_all add: tinb_iff)
    have dec: "nat (if delta = 1 then ?M - (cur + delta) else cur + delta + 1)
         < nat (if delta = 1 then ?M - cur else cur + 1)"
      "nat (if delta = 1 then ?M - (cur + delta * 2) else cur + delta * 2 + 1)
         < nat (if delta = 1 then ?M - cur else cur + 1)"
      using d range by auto
    have pre: "delta = 1 \<longrightarrow> 0 \<le> cur + delta" "delta = -1 \<longrightarrow> cur + delta < ?M"
      "delta = 1 \<longrightarrow> 0 \<le> cur + delta * 2" "delta = -1 \<longrightarrow> cur + delta * 2 < ?M"
      using range by auto
    note step = combine_while_step [of tr g row cur delta bounds, OF inb True]
    show ?thesis
    proof (cases "tval tr g row cur \<noteq> EMPTY \<and> tval tr g row cur = tval tr g row (cur + delta)")
      case merge: True
      let ?g2 = "tput tr (tput tr g row cur (tval tr g row cur * 2)) row (cur + delta) EMPTY"
      have "I (cur + delta * 2) ?g2"
        using less.prems inb merge by (intro assms(4)) simp_all
      moreover have "wf_grid ?g2" "width ?g2 = width g0" "height ?g2 = height g0"
        using less.prems by (simp_all add: wf_tput)
      ultimately have "\<exists>g' cur'. ?cw (cur + delta * 2) ?g2 = Some (Inr g')
          \<and> I cur' g' \<and> \<not> bounds cur'
          \<and> wf_grid g' \<and> width g' = width g0 \<and> height g' = height g0"
        using dec pre by (intro less.hyps) simp_all
      then show ?thesis
        using step merge by simp
    next
      case keep: False
      have "I (cur + delta) g"
        using less.prems inb keep by (intro assms(5)) simp_all
      then have "\<exists>g' cur'. ?cw (cur + delta) g = Some (Inr g')
          \<and> I cur' g' \<and> \<not> bounds cur'
          \<and> wf_grid g' \<and> width g' = width g0 \<and> height g' = height g0"
        using dec pre less.prems by (intro less.hyps) simp_all
      then show ?thesis
        using step keep by simp
    qed
  qed
qed

text \<open>A property kept by the body on each row is kept by the loop over the rows.\<close>

lemma for_rows_inv:
  assumes "for_rows body rs g = Some (Inr g')" and "J g"
    and "\<And>row g g1. row \<in> set rs \<Longrightarrow> J g \<Longrightarrow> body row g = Some (Inr g1) \<Longrightarrow> J g1"
  shows "J g'"
  using assms
proof (induction rs arbitrary: g)
  case Nil
  then show ?case by simp
next
  case (Cons r rs)
  from Cons.prems(1) obtain g1 where b: "body r g = Some (Inr g1)"
    and rest: "for_rows body rs g1 = Some (Inr g')"
    by (auto split: option.splits sum.splits)
  have j1: "J g1"
    using Cons.prems(3) [of r g g1] Cons.prems(2) b by simp
  show ?case
  proof (rule Cons.IH [OF rest j1])
    fix row g2 g3
    assume "row \<in> set rs" "J g2" "body row g2 = Some (Inr g3)"
    then show "J g3"
      using Cons.prems(3) [of row g2 g3] by simp
  qed
qed

text \<open>The parameters that \<open>_get_params_for_direction\<close> returns.\<close>

lemma directions_distinct:
  "LEFT \<noteq> RIGHT" "LEFT \<noteq> UP" "LEFT \<noteq> DOWN" "RIGHT \<noteq> UP" "RIGHT \<noteq> DOWN" "UP \<noteq> DOWN"
  "RIGHT \<noteq> LEFT" "UP \<noteq> LEFT" "DOWN \<noteq> LEFT" "UP \<noteq> RIGHT" "DOWN \<noteq> RIGHT" "DOWN \<noteq> UP"
  by (simp_all add: UP_def DOWN_def LEFT_def RIGHT_def)

lemma params_cases:
  assumes "get_params_for_direction gm d = Inr (s, M, delta, get', set')"
  shows "get' = tget (d = UP \<or> d = DOWN) \<and> set' = tset (d = UP \<or> d = DOWN)
     \<and> M = line_len (d = UP \<or> d = DOWN) (grid gm)
     \<and> (delta = 1 \<and> s = 0 \<or> delta = -1 \<and> s = M - 1)
     \<and> d \<in> set DIRECTIONS"
proof -
  consider "d = LEFT" | "d = RIGHT" | "d = UP" | "d = DOWN"
    | "d \<noteq> LEFT \<and> d \<noteq> RIGHT \<and> d \<noteq> UP \<and> d \<noteq> DOWN"
    by blast
  then show ?thesis
  proof cases
    case 1
    then show ?thesis
      using assms
      by (auto simp: get_params_for_direction_def Let_def tget_def tset_def line_len_def
          directions_distinct DIRECTIONS_def)
  next
    case 2
    then show ?thesis
      using assms
      by (auto simp: get_params_for_direction_def Let_def tget_def tset_def line_len_def
          directions_distinct DIRECTIONS_def)
  next
    case 3
    then show ?thesis
      using assms
      by (auto simp: get_params_for_direction_def Let_def tget_def tset_def line_len_def
          directions_distinct DIRECTIONS_def)
  next
    case 4
    then show ?thesis
      using assms
      by (auto simp: get_params_for_direction_def Let_def tget_def tset_def line_len_def
          directions_distinct DIRECTIONS_def)
  next
    case 5
    then show ?thesis
      using assms by (simp add: get_params_for_direction_def)
  qed
qed

section \<open>The sums of the lines under \<open>_combine\<close>\<close>

lemma map_upto_shift: "map f [0..n - 1] = map (\<lambda>k. f (k - 1)) [1..n]" for n :: int
  by (rule nth_equalityI) auto

lemma grid_lines_rows: "grid_lines False g = rows g"
  by (simp add: grid_lines_def rows_def tval_def pub_def line_len_def line_count_def
      map_upto_shift [of _ "width g"] map_upto_shift [of _ "height g"])

lemma sum_merge:
  fixes f f' :: "int \<Rightarrow> int"
  assumes "a \<in> {0..n}" "b \<in> {0..n}" "a \<noteq> b" "f b = f a"
    and "\<And>c. c \<in> {0..n} \<Longrightarrow> f' c = (if c = b then 0 else if c = a then f a * 2 else f c)"
  shows "sum f' {0..n} = sum f {0..n}"
proof -
  have b: "b \<in> {0..n} - {a}"
    using assms by simp
  have rest: "sum f' ({0..n} - {a} - {b}) = sum f ({0..n} - {a} - {b})"
    by (rule sum.cong) (use assms(5) in auto)
  have "sum f' {0..n} = f' a + (f' b + sum f' ({0..n} - {a} - {b}))"
    using assms(1) b by (simp add: sum.remove [of _ a] sum.remove [of _ b])
  also have "\<dots> = f a + (f b + sum f ({0..n} - {a} - {b}))"
    using assms by (simp add: rest)
  also have "\<dots> = sum f {0..n}"
    using assms(1) b by (simp add: sum.remove [of _ a] sum.remove [of _ b])
  finally show ?thesis .
qed

lemma line_sum_eq: "line_sum tr g row = (\<Sum>c = 0..line_len tr g - 1. tval tr g row c)"
  by (simp add: line_sum_def sum_list_distinct_conv_sum_set)

lemma line_len_tput [simp]: "line_len tr (tput tr' g row c it) = line_len tr g"
  by (simp add: line_len_def)

lemma line_count_tput [simp]: "line_count tr (tput tr' g row c it) = line_count tr g"
  by (simp add: line_count_def)

lemma line_sum_merge:
  assumes wf: "wf_grid g" and a: "tinb tr g row cur" and b: "tinb tr g row (cur + delta)"
    and ne: "delta \<noteq> 0" and eq: "tval tr g row (cur + delta) = tval tr g row cur"
    and r: "0 \<le> r" "r < line_count tr g"
  shows "line_sum tr (tput tr (tput tr g row cur (tval tr g row cur * 2)) row (cur + delta) EMPTY) r
     = line_sum tr g r"
proof -
  let ?g1 = "tput tr g row cur (tval tr g row cur * 2)"
  let ?g2 = "tput tr ?g1 row (cur + delta) EMPTY"
  have val: "tval tr ?g2 r c = (if r = row \<and> c = cur + delta then EMPTY
      else if r = row \<and> c = cur then tval tr g row cur * 2 else tval tr g r c)"
    if "c \<in> {0..line_len tr g - 1}" for c
  proof -
    have c: "tinb tr g r c"
      using that r by (simp add: tinb_iff)
    have "tval tr ?g2 r c = (if r = row \<and> c = cur + delta then EMPTY else tval tr ?g1 r c)"
      using wf a b c by (intro tval_tput) (simp_all add: wf_tput)
    also have "tval tr ?g1 r c = (if r = row \<and> c = cur then tval tr g row cur * 2 else tval tr g r c)"
      using wf a c by (intro tval_tput)
    finally show ?thesis by simp
  qed
  show ?thesis
  proof (cases "r = row")
    case True
    have "(\<Sum>c = 0..line_len tr g - 1. tval tr ?g2 row c) = (\<Sum>c = 0..line_len tr g - 1. tval tr g row c)"
    proof (rule sum_merge [where a = cur and b = "cur + delta"])
      show "cur \<in> {0..line_len tr g - 1}" "cur + delta \<in> {0..line_len tr g - 1}"
        using a b by (simp_all add: tinb_iff)
      show "cur \<noteq> cur + delta" using ne by simp
      show "tval tr g row (cur + delta) = tval tr g row cur" by (rule eq)
      show "tval tr ?g2 row c = (if c = cur + delta then 0 else if c = cur then tval tr g row cur * 2
          else tval tr g row c)" if "c \<in> {0..line_len tr g - 1}" for c
        using val [OF that] True by (simp add: EMPTY_def)
    qed
    then show ?thesis
      using True by (simp add: line_sum_eq)
  next
    case False
    then have "(\<Sum>c = 0..line_len tr g - 1. tval tr ?g2 r c) = (\<Sum>c = 0..line_len tr g - 1. tval tr g r c)"
      by (intro sum.cong) (simp_all add: val)
    then show ?thesis
      by (simp add: line_sum_eq)
  qed
qed

lemma combine_while_sums:
  assumes wf: "wf_grid g" and M: "M = line_len tr g"
    and d: "delta = 1 \<and> s = 0 \<or> delta = -1 \<and> s = M - 1"
    and bounds: "bounds = (if s = 0 then (\<lambda>x. x < M - 1) else (\<lambda>x. 0 < x))"
    and res: "combine_while bounds delta (tget tr) (tset tr) row s g = Some (Inr g1)"
  shows "wf_grid g1 \<and> width g1 = width g \<and> height g1 = height g
     \<and> (\<forall>r. 0 \<le> r \<and> r < line_count tr g \<longrightarrow> line_sum tr g1 r = line_sum tr g r)"
proof (cases "bounds s")
  case False
  then have "combine_while bounds delta (tget tr) (tset tr) row s g = Some (Inr g)"
    by (rule combine_while_exit)
  with res wf show ?thesis by simp
next
  case True
  have Mpos: "0 < M"
    using wf M by (simp add: wf_grid_def line_len_def)
  have s: "0 \<le> s" "s < M"
    using d Mpos by auto
  have row: "tinb tr g row s"
  proof (rule ccontr)
    assume "\<not> tinb tr g row s"
    then have "combine_while bounds delta (tget tr) (tset tr) row s g = Some (Inl IndexError)"
      using True by (subst combine_while.simps) (simp add: tget_eq)
    with res show False by simp
  qed
  then have rowv: "0 \<le> row" "row < line_count tr g"
    by (simp_all add: tinb_iff)
  have db: "delta = 1 \<and> bounds = (\<lambda>x. x < line_len tr g - 1) \<or> delta = -1 \<and> bounds = (\<lambda>x. 0 < x)"
    using d bounds True M by (auto split: if_splits)
  define I where "I = (\<lambda>(cur::int) g'. \<forall>r. 0 \<le> r \<and> r < line_count tr g \<longrightarrow> line_sum tr g' r = line_sum tr g r)"
  have "\<exists>g' cur'. combine_while bounds delta (tget tr) (tset tr) row s g = Some (Inr g')
      \<and> I cur' g' \<and> \<not> bounds cur'
      \<and> wf_grid g' \<and> width g' = width g \<and> height g' = height g"
  proof (rule combine_while_rule [where I = I and ?g0.0 = g, OF db rowv])
    show "I s g" by (simp add: I_def)
    show "wf_grid g" by (rule wf)
    show "delta = 1 \<longrightarrow> 0 \<le> s" "delta = - 1 \<longrightarrow> s < line_len tr g"
      using s M by simp_all
  next
    fix cur g'
    assume a: "I cur g'" "wf_grid g'" "width g' = width g" "height g' = height g"
      "tinb tr g' row cur" "tinb tr g' row (cur + delta)" "tval tr g' row cur \<noteq> EMPTY"
      "tval tr g' row (cur + delta) = tval tr g' row cur"
    have lc: "line_count tr g' = line_count tr g"
      using a(3,4) by (simp add: line_count_def)
    have "delta \<noteq> 0" using d by auto
    then show "I (cur + delta * 2)
        (tput tr (tput tr g' row cur (tval tr g' row cur * 2)) row (cur + delta) EMPTY)"
      using a lc by (simp add: I_def line_sum_merge)
  next
    fix cur g'
    assume "I cur g'"
    then show "I (cur + delta) g'" by (simp add: I_def)
  qed simp_all
  with res show ?thesis
    by (auto simp: I_def)
qed

lemma combine_sums:
  assumes wf: "wf_grid g" and M: "M = line_len tr g"
    and d: "delta = 1 \<and> s = 0 \<or> delta = -1 \<and> s = M - 1"
    and res: "combine s M delta (tget tr) (tset tr) g = Some (Inr g')"
  shows "wf_grid g' \<and> width g' = width g \<and> height g' = height g
     \<and> (\<forall>r. 0 \<le> r \<and> r < line_count tr g \<longrightarrow> line_sum tr g' r = line_sum tr g r)"
proof -
  define bounds where "bounds = (if s = 0 then (\<lambda>x. x < M - 1) else (\<lambda>x::int. 0 < x))"
  define J where "J = (\<lambda>g1. wf_grid g1 \<and> width g1 = width g \<and> height g1 = height g
     \<and> (\<forall>r. 0 \<le> r \<and> r < line_count tr g \<longrightarrow> line_sum tr g1 r = line_sum tr g r))"
  have res': "for_rows (\<lambda>row. combine_while bounds delta (tget tr) (tset tr) row s) [0..M - 1] g
      = Some (Inr g')"
    using res by (simp add: combine_def bounds_def Let_def)
  have "J g'"
  proof (rule for_rows_inv [OF res', where J = J])
    show "J g" using wf by (simp add: J_def)
  next
    fix row g1 g2
    assume j: "J g1" and b: "combine_while bounds delta (tget tr) (tset tr) row s g1 = Some (Inr g2)"
    have sh: "line_len tr g1 = line_len tr g" "line_count tr g1 = line_count tr g"
      using j by (simp_all add: J_def line_len_def line_count_def)
    from combine_while_sums [of g1 M tr delta s bounds row g2] j b d M sh
    show "J g2"
      by (simp add: J_def bounds_def)
  qed
  then show ?thesis by (simp add: J_def)
qed

text \<open>
  Claim C8. A completed \<open>_combine\<close>, with the parameters of any direction, keeps the
  sum of the values of every line of the grid (every row for LEFT and RIGHT, every column
  for UP and DOWN): a merge writes \<open>2v\<close> and \<open>EMPTY\<close> over two equal values \<open>v\<close>.
\<close>

theorem combine_preserves_line_sums:
  assumes "wf_grid (grid gm)"
    and "get_params_for_direction gm d = Inr (s, M, delta, get', set')"
    and "combine s M delta get' set' (grid gm) = Some (Inr g')"
  shows "map sum_list (grid_lines (d = UP \<or> d = DOWN) g')
     = map sum_list (grid_lines (d = UP \<or> d = DOWN) (grid gm))"
proof -
  let ?tr = "d = UP \<or> d = DOWN"
  from params_cases [OF assms(2)]
  have p: "get' = tget ?tr" "set' = tset ?tr" "M = line_len ?tr (grid gm)"
    "delta = 1 \<and> s = 0 \<or> delta = -1 \<and> s = M - 1"
    by auto
  from combine_sums [OF assms(1) p(3,4)] assms(3) p(1,2)
  have sh: "width g' = width (grid gm)" "height g' = height (grid gm)"
    and sums: "\<And>r. 0 \<le> r \<Longrightarrow> r < line_count ?tr (grid gm) \<Longrightarrow> line_sum ?tr g' r = line_sum ?tr (grid gm) r"
    by simp_all
  have "line_len ?tr g' = line_len ?tr (grid gm)" "line_count ?tr g' = line_count ?tr (grid gm)"
    using sh by (simp_all add: line_len_def line_count_def)
  then show ?thesis
    using sums by (simp add: grid_lines_def line_sum_def o_def)
qed

theorem combine_preserves_line_sums_witness:
  "wf_grid (grid pair_game)
   \<and> get_params_for_direction pair_game LEFT = Inr (0, 2, 1, get, set_cell)
   \<and> combine 0 2 1 get set_cell (grid pair_game) = Some (Inr pair_combined)
   \<and> grid_lines False (grid pair_game) = [[2, 2], [4, 4]]
   \<and> grid_lines False pair_combined = [[4, 0], [8, 0]]
   \<and> map sum_list (grid_lines False pair_combined) = map sum_list (grid_lines False (grid pair_game))"
proof -
  have w: "wf_grid (grid pair_game)"
    by code_simp
  have p: "get_params_for_direction pair_game LEFT = Inr (0, 2, 1, get, set_cell)"
    by (simp add: get_params_for_direction_def pair_game_def)
  have c: "combine 0 2 1 get set_cell (grid pair_game) = Some (Inr pair_combined)"
    by code_simp
  have l: "grid_lines False (grid pair_game) = [[2, 2], [4, 4]]"
    "grid_lines False pair_combined = [[4, 0], [8, 0]]"
    by code_simp+
  show ?thesis
    using w p c l combine_preserves_line_sums [OF w p c] by (simp add: directions_distinct)
qed

section \<open>Properties kept by \<open>_squash\<close> and \<open>_combine\<close>\<close>

text \<open>
  A row that the loop of \<open>_squash\<close> leaves without an error exists; a property of the
  grid that every move of \<open>_squash\<close> (every merge of \<open>_combine\<close>) keeps is kept by a
  completed \<open>_squash\<close> (\<open>_combine\<close>).
\<close>

lemma squash_while_valid:
  assumes "squash_while M delta (tget tr) (tset tr) row s s g = Some (Inr g1)" "0 \<le> s" "s < M"
  shows "tinb tr g row s"
proof (rule ccontr)
  assume "\<not> tinb tr g row s"
  from squash_while_error [OF assms(2,3) assms(2,3) this, of delta] assms(1)
  show False by simp
qed

lemma squash_kept:
  assumes wf: "wf_grid g" and M: "M = line_len tr g"
    and d: "delta = 1 \<and> s = 0 \<or> delta = -1 \<and> s = M - 1"
    and res: "squash s M delta (tget tr) (tset tr) g = Some (Inr g')"
    and K: "K g"
    and step: "\<And>g1 row cur le. \<lbrakk>K g1; wf_grid g1; width g1 = width g; height g1 = height g;
        tinb tr g1 row cur; tinb tr g1 row le; tval tr g1 row le = EMPTY; 0 < tval tr g1 row cur\<rbrakk>
      \<Longrightarrow> K (tput tr (tput tr g1 row le (tval tr g1 row cur)) row cur EMPTY)"
  shows "K g' \<and> wf_grid g' \<and> width g' = width g \<and> height g' = height g"
proof -
  define J where "J = (\<lambda>g1. K g1 \<and> wf_grid g1 \<and> width g1 = width g \<and> height g1 = height g)"
  have Mpos: "0 < M"
    using wf M by (simp add: wf_grid_def line_len_def)
  have s: "0 \<le> s" "s < M"
    using d Mpos by auto
  have d': "delta = 1 \<or> delta = -1"
    using d by auto
  have res': "for_rows (\<lambda>row. squash_while M delta (tget tr) (tset tr) row s s) [0..M - 1] g
      = Some (Inr g')"
    using res by (simp add: squash_def)
  have "J g'"
  proof (rule for_rows_inv [OF res', where J = J])
    show "J g" using wf K by (simp add: J_def)
  next
    fix row g1 g2
    assume j: "J g1" and b: "squash_while M delta (tget tr) (tset tr) row s s g1 = Some (Inr g2)"
    have sh: "line_len tr g1 = M" "line_count tr g1 = line_count tr g"
      using j M by (simp_all add: J_def line_len_def line_count_def)
    from squash_while_valid [OF b s] have rowv: "0 \<le> row" "row < line_count tr g1"
      by (simp_all add: tinb_iff)
    have "\<exists>g3 cur' le'. squash_while (line_len tr g1) delta (tget tr) (tset tr) row s s g1 = Some (Inr g3)
        \<and> K g3
        \<and> \<not> (0 \<le> cur' \<and> cur' < line_len tr g1 \<and> 0 \<le> le' \<and> le' < line_len tr g1)
        \<and> wf_grid g3 \<and> width g3 = width g1 \<and> height g3 = height g1"
    proof (rule squash_while_rule [where I = "\<lambda>_ _. K" and ?g0.0 = g1, OF d' rowv])
      fix g4 cur le
      assume "K g4" "wf_grid g4" "width g4 = width g1" "height g4 = height g1"
        "tinb tr g4 row cur" "tinb tr g4 row le" "tval tr g4 row le = EMPTY" "0 < tval tr g4 row cur"
      then show "K (tput tr (tput tr g4 row le (tval tr g4 row cur)) row cur EMPTY)"
        using j by (intro step) (simp_all add: J_def)
    qed (use j in \<open>simp_all add: J_def\<close>)
    then show "J g2"
      using b sh j by (auto simp: J_def)
  qed
  then show ?thesis by (simp add: J_def)
qed

lemma combine_kept:
  assumes wf: "wf_grid g" and M: "M = line_len tr g"
    and d: "delta = 1 \<and> s = 0 \<or> delta = -1 \<and> s = M - 1"
    and res: "combine s M delta (tget tr) (tset tr) g = Some (Inr g')"
    and K: "K g"
    and step: "\<And>g1 row cur. \<lbrakk>K g1; wf_grid g1; width g1 = width g; height g1 = height g;
        tinb tr g1 row cur; tinb tr g1 row (cur + delta); tval tr g1 row cur \<noteq> EMPTY;
        tval tr g1 row (cur + delta) = tval tr g1 row cur\<rbrakk>
      \<Longrightarrow> K (tput tr (tput tr g1 row cur (tval tr g1 row cur * 2)) row (cur + delta) EMPTY)"
  shows "K g' \<and> wf_grid g' \<and> width g' = width g \<and> height g' = height g"
proof -
  define bounds where "bounds = (if s = 0 then (\<lambda>x. x < M - 1) else (\<lambda>x::int. 0 < x))"
  define J where "J = (\<lambda>g1. K g1 \<and> wf_grid g1 \<and> width g1 = width g \<and> height g1 = height g)"
  have Mpos: "0 < M"
    using wf M by (simp add: wf_grid_def line_len_def)
  have s: "0 \<le> s" "s < M"
    using d Mpos by auto
  have res': "for_rows (\<lambda>row. combine_while bounds delta (tget tr) (tset tr) row s) [0..M - 1] g
      = Some (Inr g')"
    using res by (simp add: combine_def bounds_def Let_def)
  have "J g'"
  proof (rule for_rows_inv [OF res', where J = J])
    show "J g" using wf K by (simp add: J_def)
  next
    fix row g1 g2
    assume j: "J g1" and b: "combine_while bounds delta (tget tr) (tset tr) row s g1 = Some (Inr g2)"
    have sh: "line_len tr g1 = M" "line_count tr g1 = line_count tr g"
      using j M by (simp_all add: J_def line_len_def line_count_def)
    show "J g2"
    proof (cases "bounds s")
      case False
      then have "combine_while bounds delta (tget tr) (tset tr) row s g1 = Some (Inr g1)"
        by (rule combine_while_exit)
      with b j show ?thesis by simp
    next
      case True
      have row: "tinb tr g1 row s"
      proof (rule ccontr)
        assume "\<not> tinb tr g1 row s"
        then have "combine_while bounds delta (tget tr) (tset tr) row s g1 = Some (Inl IndexError)"
          using True by (subst combine_while.simps) (simp add: tget_eq)
        with b show False by simp
      qed
      then have rowv: "0 \<le> row" "row < line_count tr g1"
        by (simp_all add: tinb_iff)
      have db: "delta = 1 \<and> bounds = (\<lambda>x. x < line_len tr g1 - 1) \<or> delta = -1 \<and> bounds = (\<lambda>x. 0 < x)"
        using d True sh by (auto simp: bounds_def split: if_splits)
      have "\<exists>g3 cur'. combine_while bounds delta (tget tr) (tset tr) row s g1 = Some (Inr g3)
          \<and> K g3 \<and> \<not> bounds cur'
          \<and> wf_grid g3 \<and> width g3 = width g1 \<and> height g3 = height g1"
      proof (rule combine_while_rule [where I = "\<lambda>_. K" and ?g0.0 = g1, OF db rowv])
        fix cur g4
        assume "K g4" "wf_grid g4" "width g4 = width g1" "height g4 = height g1"
          "tinb tr g4 row cur" "tinb tr g4 row (cur + delta)" "tval tr g4 row cur \<noteq> EMPTY"
          "tval tr g4 row (cur + delta) = tval tr g4 row cur"
        then show "K (tput tr (tput tr g4 row cur (tval tr g4 row cur * 2)) row (cur + delta) EMPTY)"
          using j by (intro step) (simp_all add: J_def)
      qed (use j s sh in \<open>simp_all add: J_def\<close>)
      then show ?thesis
        using b j by (auto simp: J_def)
    qed
  qed
  then show ?thesis by (simp add: J_def)
qed

section \<open>The maximum of the cell values\<close>

lemma tiles_tr: "tiles tr g = tiles False g"
  by (cases tr) (auto simp: tiles_def tinb_def tval_def)

lemma below_tr: "below tr g g' = below False g g'"
proof (cases tr)
  case True
  have "below True g g' = below False g g'"
    unfolding below_def tinb_def tval_def by (simp only: if_True if_False) metis
  with True show ?thesis by simp
next
  case False
  then show ?thesis by simp
qed

lemma below_refl: "below tr g g"
  by (auto simp: below_def)

lemma below_trans: "below tr g g1 \<Longrightarrow> below tr g1 g2 \<Longrightarrow> below tr g g2"
  unfolding below_def by (meson order_trans)

lemma tval_tput2:
  assumes "wf_grid g" "tinb tr g row a" "tinb tr g row b" "tinb tr g r c"
  shows "tval tr (tput tr (tput tr g row a x) row b y) r c
     = (if r = row \<and> c = b then y else if r = row \<and> c = a then x else tval tr g r c)"
proof -
  have "tval tr (tput tr (tput tr g row a x) row b y) r c
      = (if r = row \<and> c = b then y else tval tr (tput tr g row a x) r c)"
    using assms by (intro tval_tput) (simp_all add: wf_tput)
  also have "tval tr (tput tr g row a x) r c = (if r = row \<and> c = a then x else tval tr g r c)"
    using assms by (intro tval_tput)
  finally show ?thesis by simp
qed

lemma squash_step_tiles:
  assumes wf: "wf_grid g" and cur: "tinb tr g row cur" and le: "tinb tr g row le"
    and e: "tval tr g row le = EMPTY" and v: "0 < tval tr g row cur"
  shows "below tr g (tput tr (tput tr g row le (tval tr g row cur)) row cur EMPTY)"
    and "tiles tr g \<Longrightarrow> tiles tr (tput tr (tput tr g row le (tval tr g row cur)) row cur EMPTY)"
proof -
  let ?g2 = "tput tr (tput tr g row le (tval tr g row cur)) row cur EMPTY"
  have ne: "le \<noteq> cur"
    using e v by (auto simp: EMPTY_def)
  note val = tval_tput2 [OF wf le cur]
  show "below tr g ?g2"
    unfolding below_def
  proof (intro allI impI)
    fix r c assume rc: "tinb tr g r c"
    show "\<exists>r' c'. tinb tr ?g2 r' c' \<and> tval tr g r c \<le> tval tr ?g2 r' c'"
    proof (cases "r = row \<and> (c = cur \<or> c = le)")
      case True
      then have "tval tr g r c \<le> tval tr ?g2 row le"
        using e v ne by (auto simp: val [OF le] EMPTY_def)
      then show ?thesis using le by auto
    next
      case False
      then have "tval tr g r c \<le> tval tr ?g2 r c"
        by (auto simp: val [OF rc])
      then show ?thesis using rc by auto
    qed
  qed
  show "tiles tr ?g2" if "tiles tr g"
    using that v by (auto simp: tiles_def val EMPTY_def)
qed

lemma combine_step_tiles:
  assumes wf: "wf_grid g" and cur: "tinb tr g row cur" and nx: "tinb tr g row (cur + delta)"
    and ne: "delta \<noteq> 0" and eq: "tval tr g row (cur + delta) = tval tr g row cur"
    and t: "tiles tr g"
  shows "below tr g (tput tr (tput tr g row cur (tval tr g row cur * 2)) row (cur + delta) EMPTY)"
    and "tiles tr (tput tr (tput tr g row cur (tval tr g row cur * 2)) row (cur + delta) EMPTY)"
proof -
  let ?g2 = "tput tr (tput tr g row cur (tval tr g row cur * 2)) row (cur + delta) EMPTY"
  have v: "0 \<le> tval tr g row cur"
    using t cur by (simp add: tiles_def)
  note val = tval_tput2 [OF wf cur nx]
  show "below tr g ?g2"
    unfolding below_def
  proof (intro allI impI)
    fix r c assume rc: "tinb tr g r c"
    show "\<exists>r' c'. tinb tr ?g2 r' c' \<and> tval tr g r c \<le> tval tr ?g2 r' c'"
    proof (cases "r = row \<and> (c = cur \<or> c = cur + delta)")
      case True
      then have "tval tr g r c \<le> tval tr ?g2 row cur"
        using eq v ne by (auto simp: val [OF cur])
      then show ?thesis using cur by auto
    next
      case False
      then have "tval tr g r c \<le> tval tr ?g2 r c"
        by (auto simp: val [OF rc])
      then show ?thesis using rc by auto
    qed
  qed
  show "tiles tr ?g2"
    using t v by (auto simp: tiles_def val EMPTY_def)
qed

lemma squash_tiles:
  assumes wf: "wf_grid g" and M: "M = line_len tr g"
    and d: "delta = 1 \<and> s = 0 \<or> delta = -1 \<and> s = M - 1"
    and res: "squash s M delta (tget tr) (tset tr) g = Some (Inr g')"
    and t: "tiles tr g"
  shows "tiles tr g' \<and> below tr g g' \<and> wf_grid g' \<and> width g' = width g \<and> height g' = height g"
proof -
  have "(tiles tr g' \<and> below tr g g') \<and> wf_grid g' \<and> width g' = width g \<and> height g' = height g"
  proof (rule squash_kept [OF wf M d res, where K = "\<lambda>g1. tiles tr g1 \<and> below tr g g1"])
    show "tiles tr g \<and> below tr g g"
      using t by (simp add: below_refl)
  next
    fix g1 row cur le
    assume a: "tiles tr g1 \<and> below tr g g1" "wf_grid g1" "tinb tr g1 row cur" "tinb tr g1 row le"
      "tval tr g1 row le = EMPTY" "0 < tval tr g1 row cur"
    from squash_step_tiles [OF a(2,3,4,5,6)] a(1)
    show "tiles tr (tput tr (tput tr g1 row le (tval tr g1 row cur)) row cur EMPTY)
        \<and> below tr g (tput tr (tput tr g1 row le (tval tr g1 row cur)) row cur EMPTY)"
      by (blast intro: below_trans)
  qed
  then show ?thesis by simp
qed

lemma combine_tiles:
  assumes wf: "wf_grid g" and M: "M = line_len tr g"
    and d: "delta = 1 \<and> s = 0 \<or> delta = -1 \<and> s = M - 1"
    and res: "combine s M delta (tget tr) (tset tr) g = Some (Inr g')"
    and t: "tiles tr g"
  shows "tiles tr g' \<and> below tr g g' \<and> wf_grid g' \<and> width g' = width g \<and> height g' = height g"
proof -
  have ne: "delta \<noteq> 0" using d by auto
  have "(tiles tr g' \<and> below tr g g') \<and> wf_grid g' \<and> width g' = width g \<and> height g' = height g"
  proof (rule combine_kept [OF wf M d res, where K = "\<lambda>g1. tiles tr g1 \<and> below tr g g1"])
    show "tiles tr g \<and> below tr g g"
      using t by (simp add: below_refl)
  next
    fix g1 row cur
    assume a: "tiles tr g1 \<and> below tr g g1" "wf_grid g1" "tinb tr g1 row cur"
      "tinb tr g1 row (cur + delta)" "tval tr g1 row (cur + delta) = tval tr g1 row cur"
    from combine_step_tiles [OF a(2,3,4) ne a(5)] a(1)
    show "tiles tr (tput tr (tput tr g1 row cur (tval tr g1 row cur * 2)) row (cur + delta) EMPTY)
        \<and> below tr g (tput tr (tput tr g1 row cur (tval tr g1 row cur * 2)) row (cur + delta) EMPTY)"
      by (blast intro: below_trans)
  qed
  then show ?thesis by simp
qed

lemma move_merge_move_tiles:
  assumes wf: "wf_grid (grid gm)" and t: "tiles False (grid gm)"
    and p: "get_params_for_direction gm d = Inr params"
    and res: "move_merge_move params (grid gm) = Some (Inr g3)"
  shows "tiles False g3 \<and> below False (grid gm) g3 \<and> wf_grid g3"
proof -
  obtain s M delta get' set' where params: "params = (s, M, delta, get', set')"
    by (cases params)
  let ?tr = "d = UP \<or> d = DOWN"
  from params_cases [OF p [unfolded params]]
  have pc: "get' = tget ?tr" "set' = tset ?tr" "M = line_len ?tr (grid gm)"
    "delta = 1 \<and> s = 0 \<or> delta = -1 \<and> s = M - 1"
    by auto
  from res obtain g1 g2 where
    r1: "squash s M delta (tget ?tr) (tset ?tr) (grid gm) = Some (Inr g1)"
    and r2: "combine s M delta (tget ?tr) (tset ?tr) g1 = Some (Inr g2)"
    and r3: "squash s M delta (tget ?tr) (tset ?tr) g2 = Some (Inr g3)"
    by (auto simp: move_merge_move_def params pc(1,2) split: option.splits sum.splits)
  have t0: "tiles ?tr (grid gm)"
    using t tiles_tr by blast
  from squash_tiles [OF wf pc(3,4) r1 t0]
  have 1: "tiles ?tr g1" "below ?tr (grid gm) g1" "wf_grid g1" "M = line_len ?tr g1"
    using pc(3) by (simp_all add: line_len_def)
  from combine_tiles [OF 1(3,4) pc(4) r2 1(1)]
  have 2: "tiles ?tr g2" "below ?tr g1 g2" "wf_grid g2" "M = line_len ?tr g2"
    using 1(4) by (simp_all add: line_len_def)
  from squash_tiles [OF 2(3,4) pc(4) r3 2(1)]
  have 3: "tiles ?tr g3" "below ?tr g2 g3" "wf_grid g3"
    by simp_all
  have "below ?tr (grid gm) g3"
    using 1(2) 2(2) 3(2) by (blast intro: below_trans)
  then show ?thesis
    using 3 tiles_tr below_tr by blast
qed

lemma cell_values_set: "set (cell_values g) = {pub g j i | j i. inb g j i}"
proof (intro set_eqI iffI)
  fix v assume "v \<in> set (cell_values g)"
  then obtain a b where ab: "1 \<le> a" "a \<le> height g" "1 \<le> b" "b \<le> width g" "v = cell_at g a b"
    by (auto simp: cell_values_def rows_def)
  then have "v = pub g (a - 1) (b - 1)" "inb g (a - 1) (b - 1)"
    by (simp_all add: pub_def inb_def)
  then show "v \<in> {pub g j i | j i. inb g j i}" by blast
next
  fix v assume "v \<in> {pub g j i | j i. inb g j i}"
  then obtain j i where "inb g j i" "v = pub g j i" by blast
  then have "j + 1 \<in> set [1..height g]" "i + 1 \<in> set [1..width g]" "v = cell_at g (j + 1) (i + 1)"
    by (simp_all add: inb_def pub_def)
  then show "v \<in> set (cell_values g)"
    unfolding cell_values_def rows_def by (auto simp del: set_upto)
qed

lemma cell_values_nonempty: "wf_grid g \<Longrightarrow> cell_values g \<noteq> []"
proof -
  assume "wf_grid g"
  then have "inb g 0 0" by (simp add: wf_grid_def inb_def)
  then have "pub g 0 0 \<in> set (cell_values g)"
    unfolding cell_values_set by blast
  then show ?thesis by auto
qed

lemma tiles_only_iff: "tiles_only g = tiles False g"
  by (auto simp: tiles_only_def tiles_def list_all_iff cell_values_set tinb_def tval_def)

lemma py_max_Max: "xs \<noteq> [] \<Longrightarrow> py_max xs = Inr (Max (set xs))"
  by (cases xs) (simp_all add: py_max_def Max.set_eq_fold [symmetric])

lemma below_Max:
  assumes "below False g g'" "wf_grid g" "wf_grid g'"
  shows "Max (set (cell_values g)) \<le> Max (set (cell_values g'))"
proof (rule Max.boundedI)
  show "finite (set (cell_values g))" by simp
  show "set (cell_values g) \<noteq> {}" using cell_values_nonempty [OF assms(2)] by simp
  fix v assume "v \<in> set (cell_values g)"
  then obtain j i where ji: "inb g j i" "v = pub g j i"
    unfolding cell_values_set by blast
  from assms(1) ji(1) have "\<exists>j' i'. inb g' j' i' \<and> pub g j i \<le> pub g' j' i'"
    unfolding below_def tinb_def tval_def by simp
  with ji(2) obtain j' i' where "inb g' j' i'" "v \<le> pub g' j' i'"
    by blast
  moreover from this have "pub g' j' i' \<in> set (cell_values g')"
    unfolding cell_values_set by blast
  then have "pub g' j' i' \<le> Max (set (cell_values g'))"
    by simp
  ultimately show "v \<le> Max (set (cell_values g'))" by simp
qed

lemma place_random_tiles:
  assumes wf: "wf_grid (grid gm)" and t: "tiles False (grid gm)" and iv: "0 \<le> initial_value gm"
    and res: "place_random r gm = Inr gm'"
  shows "wf_grid (grid gm') \<and> tiles False (grid gm') \<and> below False (grid gm) (grid gm')
     \<and> initial_value gm' = initial_value gm \<and> goal gm' = goal gm \<and> best_value gm' = best_value gm"
proof -
  from place_random_cases [of r gm] res consider "gm' = gm"
    | j i where "(j, i) \<in> set (available_cells (grid gm))"
        "gm' = gm\<lparr>grid := put (grid gm) j i (initial_value gm)\<rparr>"
    by auto
  then show ?thesis
  proof cases
    case 1
    then show ?thesis using wf t by (simp add: below_refl)
  next
    case 2
    let ?g = "grid gm"
    from 2(1) have e: "inb ?g j i" "pub ?g j i = EMPTY"
      by (simp_all add: available_cells_iff get_eq split: if_splits)
    have val: "pub (put ?g j i (initial_value gm)) j' i'
        = (if j' = j \<and> i' = i then initial_value gm else pub ?g j' i')" if "inb ?g j' i'" for j' i'
      using wf e(1) that by (rule pub_put)
    have "tiles False (put ?g j i (initial_value gm))"
      using t iv by (auto simp: tiles_def tinb_def tval_def val)
    moreover have "below False ?g (put ?g j i (initial_value gm))"
      unfolding below_def tinb_def tval_def
    proof (simp only: if_False, intro allI impI)
      fix r c assume rc: "inb ?g r c"
      have "pub ?g r c \<le> pub (put ?g j i (initial_value gm)) r c"
        using e iv by (auto simp: val [OF rc] EMPTY_def)
      then show "\<exists>r' c'. inb (put ?g j i (initial_value gm)) r' c'
          \<and> pub ?g r c \<le> pub (put ?g j i (initial_value gm)) r' c'"
        using rc by auto
    qed
    ultimately show ?thesis
      using 2(2) wf by (simp add: wf_put)
  qed
qed

lemma slam_tiles:
  assumes wf: "wf_grid (grid gm)" and t: "tiles False (grid gm)" and iv: "0 \<le> initial_value gm"
    and res: "slam d r gm = Some (Inr gm')"
  shows "wf_grid (grid gm') \<and> tiles False (grid gm') \<and> below False (grid gm) (grid gm')
     \<and> initial_value gm' = initial_value gm \<and> goal gm' = goal gm
     \<and> py_max (cell_values (grid gm')) = Inr (best_value gm')"
proof -
  from res obtain params g3 gm4 m where
    p: "get_params_for_direction gm d = Inr params"
    and m3: "move_merge_move params (grid gm) = Some (Inr g3)"
    and pl: "place_random r (gm\<lparr>grid := g3\<rparr>) = Inr gm4"
    and mx: "py_max (cell_values (grid gm4)) = Inr m"
    and gm': "gm' = gm4\<lparr>best_value := m\<rparr>"
    by (auto simp: slam_def split: sum.splits option.splits)
  from move_merge_move_tiles [OF wf t p m3]
  have 3: "tiles False g3" "below False (grid gm) g3" "wf_grid g3"
    by simp_all
  from place_random_tiles [of "gm\<lparr>grid := g3\<rparr>" r gm4] 3 iv pl
  have 4: "wf_grid (grid gm4)" "tiles False (grid gm4)" "below False g3 (grid gm4)"
    "initial_value gm4 = initial_value gm" "goal gm4 = goal gm"
    by simp_all
  have "below False (grid gm) (grid gm4)"
    using 3(2) 4(3) by (rule below_trans)
  then show ?thesis
    using 4 mx gm' by simp
qed

lemma Game_init_tiles:
  assumes "Game_init w h goal_arg iv = Inr gm"
  shows "wf_grid (grid gm) \<and> tiles False (grid gm) \<and> initial_value gm = iv \<and> best_value gm = 0"
proof -
  from assms obtain g where g: "Grid_init w h = Inr g"
    and gm: "gm = \<lparr>grid = g, initial_value = iv, goal = goal_arg, best_value = 0\<rparr>"
    by (auto simp: Game_init_def split: sum.splits)
  from Grid_init_wf [OF g] show ?thesis
    by (simp add: gm tiles_def tinb_def tval_def EMPTY_def)
qed

lemma start_tiles:
  assumes wf: "wf_grid (grid gm)" and t: "tiles False (grid gm)" and iv: "0 \<le> initial_value gm"
    and res: "start r1 r2 gm = Inr gm'"
  shows "wf_grid (grid gm') \<and> tiles False (grid gm') \<and> below False (grid gm) (grid gm')
     \<and> initial_value gm' = initial_value gm \<and> goal gm' = goal gm \<and> best_value gm' = best_value gm"
proof -
  from res obtain gm1 where 1: "place_random r1 gm = Inr gm1" and 2: "place_random r2 gm1 = Inr gm'"
    by (auto simp: start_def split: sum.splits)
  from place_random_tiles [OF wf t iv 1]
  have a: "wf_grid (grid gm1)" "tiles False (grid gm1)" "below False (grid gm) (grid gm1)"
    "initial_value gm1 = initial_value gm" "goal gm1 = goal gm" "best_value gm1 = best_value gm"
    by simp_all
  from place_random_tiles [OF a(1,2) _ 2] iv a(4)
  have b: "wf_grid (grid gm')" "tiles False (grid gm')" "below False (grid gm1) (grid gm')"
    "initial_value gm' = initial_value gm1" "goal gm' = goal gm1" "best_value gm' = best_value gm1"
    by simp_all
  have "below False (grid gm) (grid gm')"
    using a(3) b(3) by (rule below_trans)
  then show ?thesis using a b by simp
qed

lemma played_inv:
  "played n gm \<Longrightarrow>
     wf_grid (grid gm) \<and> tiles False (grid gm) \<and> 0 \<le> initial_value gm
     \<and> best_value gm \<le> Max (set (cell_values (grid gm)))
     \<and> (n = 0 \<longrightarrow> best_value gm = 0)"
proof (induction rule: played.induct)
  case (new w h goal_arg iv gm)
  from Game_init_tiles [OF new(1)]
  have a: "wf_grid (grid gm)" "tiles False (grid gm)" "initial_value gm = iv" "best_value gm = 0"
    by simp_all
  have "inb (grid gm) 0 0"
    using a(1) by (simp add: wf_grid_def inb_def)
  then have "pub (grid gm) 0 0 \<in> set (cell_values (grid gm))" "0 \<le> pub (grid gm) 0 0"
    using a(2) unfolding cell_values_set by (auto simp: tiles_def tinb_def tval_def)
  then have "0 \<le> Max (set (cell_values (grid gm)))"
    by (meson List.finite_set Max_ge order_trans)
  then show ?case using a new(2) by simp
next
  case (started n gm r1 r2 gm')
  from start_tiles [of gm r1 r2 gm'] started
  have a: "wf_grid (grid gm')" "tiles False (grid gm')" "below False (grid gm) (grid gm')"
    "initial_value gm' = initial_value gm" "best_value gm' = best_value gm"
    by simp_all
  from below_Max [OF a(3) _ a(1)] started.IH
  have "Max (set (cell_values (grid gm))) \<le> Max (set (cell_values (grid gm')))"
    by simp
  then show ?case using a started.IH by simp
next
  case (slammed n gm d r gm')
  from slam_tiles [of gm d r gm'] slammed
  have a: "wf_grid (grid gm')" "tiles False (grid gm')"
    "initial_value gm' = initial_value gm"
    "py_max (cell_values (grid gm')) = Inr (best_value gm')"
    by simp_all
  have "best_value gm' = Max (set (cell_values (grid gm')))"
    using a(4) py_max_Max [OF cell_values_nonempty [OF a(1)]] by simp
  then show ?case using a slammed.IH by simp
qed

text \<open>
  Claim C4, as amended. For a game whose spawn value is \<open>EMPTY\<close> or positive, in every
  state reached by \<open>start\<close> and completed slams: \<open>best_value\<close> is 0 as long as no slam
  has completed (also after \<open>start\<close>); a completed slam does not decrease
  \<open>best_value\<close> and leaves it equal to the maximum of the cell values of the grid; so
  \<open>goal_met\<close>, once true, is true after every later completed slam.
\<close>

theorem best_value_monotone:
  assumes "played n gm"
  shows "(n = 0 \<longrightarrow> best_value gm = 0)
     \<and> (\<forall>d r gm'. slam d r gm = Some (Inr gm') \<longrightarrow>
          best_value gm \<le> best_value gm'
          \<and> py_max (cell_values (grid gm')) = Inr (best_value gm')
          \<and> (goal_met gm \<longrightarrow> goal_met gm'))"
proof -
  from played_inv [OF assms]
  have inv: "wf_grid (grid gm)" "tiles False (grid gm)" "0 \<le> initial_value gm"
    "best_value gm \<le> Max (set (cell_values (grid gm)))" "n = 0 \<longrightarrow> best_value gm = 0"
    by simp_all
  have "best_value gm \<le> best_value gm'
      \<and> py_max (cell_values (grid gm')) = Inr (best_value gm')
      \<and> (goal_met gm \<longrightarrow> goal_met gm')"
    if "slam d r gm = Some (Inr gm')" for d r gm'
  proof -
    from slam_tiles [OF inv(1,2,3) that]
    have a: "wf_grid (grid gm')" "below False (grid gm) (grid gm')" "goal gm' = goal gm"
      "py_max (cell_values (grid gm')) = Inr (best_value gm')"
      by simp_all
    have "best_value gm' = Max (set (cell_values (grid gm')))"
      using a(4) py_max_Max [OF cell_values_nonempty [OF a(1)]] by simp
    with below_Max [OF a(2) inv(1) a(1)] inv(4) have "best_value gm \<le> best_value gm'"
      by simp
    then show ?thesis
      using a by (simp add: goal_met_def)
  qed
  with inv(5) show ?thesis by blast
qed

theorem best_value_monotone_witness:
  "played 0 tall_started \<and> best_value tall_started = 0
   \<and> played 1 tall_slammed
   \<and> slam LEFT 0 tall_slammed = Some (Inr tall_slammed_twice)
   \<and> best_value tall_slammed \<le> best_value tall_slammed_twice
   \<and> py_max (cell_values (grid tall_slammed_twice)) = Inr (best_value tall_slammed_twice)
   \<and> goal_met tall_slammed \<and> goal_met tall_slammed_twice"
proof -
  have i: "Game_init 2 3 2 2 = Inr tall_new"
    by code_simp
  have s: "start 5 0 tall_new = Inr tall_started"
    by code_simp
  have p0: "played 0 tall_started"
    using started [OF new [OF i] s] by simp
  have s1: "slam LEFT 0 tall_started = Some (Inr tall_slammed)"
    by code_simp
  have p1: "played 1 tall_slammed"
    using slammed [OF p0 s1] by simp
  have s2: "slam LEFT 0 tall_slammed = Some (Inr tall_slammed_twice)"
    by code_simp
  have g: "goal_met tall_slammed"
    by code_simp
  show ?thesis
    using p0 p1 s2 g best_value_monotone [OF p0] best_value_monotone [OF p1] by blast
qed

text \<open>
  Claim C4 as stated fails for a negative spawn value: in the game of one cell with the
  spawn value \<open>-5\<close>, \<open>best_value\<close> is 0 after \<open>start\<close> and \<open>-5\<close> after the first slam.
\<close>

theorem negative_spawn_counterexample:
  "Game_init 1 1 2048 (-5) = Inr neg_new \<and> start 0 0 neg_new = Inr neg_started
   \<and> best_value neg_started = 0
   \<and> slam LEFT 0 neg_started = Some (Inr neg_slammed)
   \<and> best_value neg_slammed = -5"
  by code_simp

section \<open>Squashing twice\<close>




lemma scan_pos_0 [simp]: "scan_pos s delta 0 = s"
  by (simp add: scan_pos_def)





















section \<open>When a slam completes\<close>

text \<open>
  On the lines that exist both loops end without an error. \<open>_squash\<close> and \<open>_combine\<close>
  complete when the lines are no longer than their number, and \<open>_squash\<close> raises
  IndexError at the first row that does not exist when they are longer.
\<close>

lemma squash_while_total:
  assumes wf: "wf_grid g" and M: "M = line_len tr g"
    and d: "delta = 1 \<or> delta = -1"
    and row: "0 \<le> row" "row < line_count tr g"
  shows "\<exists>g'. squash_while M delta (tget tr) (tset tr) row cur le g = Some (Inr g')
     \<and> wf_grid g' \<and> width g' = width g \<and> height g' = height g"
proof -
  have "\<exists>g' cur' le'. squash_while (line_len tr g) delta (tget tr) (tset tr) row cur le g = Some (Inr g')
      \<and> True
      \<and> \<not> (0 \<le> cur' \<and> cur' < line_len tr g \<and> 0 \<le> le' \<and> le' < line_len tr g)
      \<and> wf_grid g' \<and> width g' = width g \<and> height g' = height g"
    by (rule squash_while_rule [where I = "\<lambda>_ _ _. True" and ?g0.0 = g, OF d row]) (simp_all add: wf)
  then show ?thesis
    using M by blast
qed

lemma combine_while_total:
  assumes wf: "wf_grid g" and M: "M = line_len tr g"
    and d: "delta = 1 \<and> s = 0 \<or> delta = -1 \<and> s = M - 1"
    and bounds: "bounds = (if s = 0 then (\<lambda>x. x < M - 1) else (\<lambda>x. 0 < x))"
    and row: "0 \<le> row" "row < line_count tr g"
  shows "\<exists>g'. combine_while bounds delta (tget tr) (tset tr) row s g = Some (Inr g')
     \<and> wf_grid g' \<and> width g' = width g \<and> height g' = height g"
proof (cases "bounds s")
  case False
  then have "combine_while bounds delta (tget tr) (tset tr) row s g = Some (Inr g)"
    by (rule combine_while_exit)
  with wf show ?thesis by simp
next
  case True
  have Mpos: "0 < M"
    using wf M by (simp add: wf_grid_def line_len_def)
  have s: "0 \<le> s" "s < M"
    using d Mpos by auto
  have db: "delta = 1 \<and> bounds = (\<lambda>x. x < line_len tr g - 1) \<or> delta = -1 \<and> bounds = (\<lambda>x. 0 < x)"
    using d bounds True M by (auto split: if_splits)
  have "\<exists>g' cur'. combine_while bounds delta (tget tr) (tset tr) row s g = Some (Inr g')
      \<and> True \<and> \<not> bounds cur'
      \<and> wf_grid g' \<and> width g' = width g \<and> height g' = height g"
    by (rule combine_while_rule [where I = "\<lambda>_ _. True" and ?g0.0 = g, OF db row])
      (use wf s M in simp_all)
  then show ?thesis by blast
qed

lemma for_rows_total:
  assumes "J g"
    and "\<And>r g1. r \<in> set rs \<Longrightarrow> J g1 \<Longrightarrow> \<exists>g2. body r g1 = Some (Inr g2) \<and> J g2"
  shows "\<exists>g'. for_rows body rs g = Some (Inr g') \<and> J g'"
  using assms
proof (induction rs arbitrary: g)
  case Nil
  then show ?case by simp
next
  case (Cons r rs)
  from Cons.prems(2) [of r g] Cons.prems(1) obtain g1 where 1: "body r g = Some (Inr g1)" "J g1"
    by auto
  have "\<exists>g'. for_rows body rs g1 = Some (Inr g') \<and> J g'"
  proof (rule Cons.IH [OF 1(2)])
    fix r' g2 assume "r' \<in> set rs" "J g2"
    then show "\<exists>g3. body r' g2 = Some (Inr g3) \<and> J g3"
      using Cons.prems(2) [of r' g2] by simp
  qed
  then show ?case using 1(1) by simp
qed

lemma for_rows_append:
  "for_rows body (xs @ ys) g =
     (case for_rows body xs g of
        None \<Rightarrow> None
      | Some (Inl e) \<Rightarrow> Some (Inl e)
      | Some (Inr g') \<Rightarrow> for_rows body ys g')"
  by (induction xs arbitrary: g) (auto split: option.splits sum.splits)

lemma squash_total:
  assumes wf: "wf_grid g" and M: "M = line_len tr g"
    and d: "delta = 1 \<and> s = 0 \<or> delta = -1 \<and> s = M - 1"
    and fits: "M \<le> line_count tr g"
  shows "\<exists>g'. squash s M delta (tget tr) (tset tr) g = Some (Inr g')
     \<and> wf_grid g' \<and> width g' = width g \<and> height g' = height g"
  unfolding squash_def
proof (rule for_rows_total [where J = "\<lambda>g1. wf_grid g1 \<and> width g1 = width g \<and> height g1 = height g"])
  show "wf_grid g \<and> width g = width g \<and> height g = height g"
    using wf by simp
next
  fix r g1
  assume r: "r \<in> set [0..M - 1]" and j: "wf_grid g1 \<and> width g1 = width g \<and> height g1 = height g"
  have sh: "M = line_len tr g1" "line_count tr g1 = line_count tr g"
    using j M by (simp_all add: line_len_def line_count_def)
  have "\<exists>g'. squash_while M delta (tget tr) (tset tr) r s s g1 = Some (Inr g')
      \<and> wf_grid g' \<and> width g' = width g1 \<and> height g' = height g1"
    using r fits sh d j by (intro squash_while_total) auto
  then show "\<exists>g2. squash_while M delta (tget tr) (tset tr) r s s g1 = Some (Inr g2)
      \<and> wf_grid g2 \<and> width g2 = width g \<and> height g2 = height g"
    using j by auto
qed

lemma combine_total:
  assumes wf: "wf_grid g" and M: "M = line_len tr g"
    and d: "delta = 1 \<and> s = 0 \<or> delta = -1 \<and> s = M - 1"
    and fits: "M \<le> line_count tr g"
  shows "\<exists>g'. combine s M delta (tget tr) (tset tr) g = Some (Inr g')
     \<and> wf_grid g' \<and> width g' = width g \<and> height g' = height g"
  unfolding combine_def Let_def
proof (rule for_rows_total [where J = "\<lambda>g1. wf_grid g1 \<and> width g1 = width g \<and> height g1 = height g"])
  show "wf_grid g \<and> width g = width g \<and> height g = height g"
    using wf by simp
next
  fix r g1
  let ?bounds = "if s = 0 then (\<lambda>x. x < M - 1) else (\<lambda>x. 0 < x)"
  assume r: "r \<in> set [0..M - 1]" and j: "wf_grid g1 \<and> width g1 = width g \<and> height g1 = height g"
  have sh: "M = line_len tr g1" "line_count tr g1 = line_count tr g"
    using j M by (simp_all add: line_len_def line_count_def)
  have "\<exists>g'. combine_while ?bounds delta (tget tr) (tset tr) r s g1 = Some (Inr g')
      \<and> wf_grid g' \<and> width g' = width g1 \<and> height g' = height g1"
    using r fits sh d j by (intro combine_while_total [where M = M]) auto
  then show "\<exists>g2. combine_while ?bounds delta (tget tr) (tset tr) r s g1 = Some (Inr g2)
      \<and> wf_grid g2 \<and> width g2 = width g \<and> height g2 = height g"
    using j by auto
qed

lemma squash_short:
  assumes wf: "wf_grid g" and M: "M = line_len tr g"
    and d: "delta = 1 \<and> s = 0 \<or> delta = -1 \<and> s = M - 1"
    and short: "line_count tr g < M"
  shows "squash s M delta (tget tr) (tset tr) g = Some (Inl IndexError)"
proof -
  let ?n = "line_count tr g"
  let ?body = "\<lambda>row. squash_while M delta (tget tr) (tset tr) row s s"
  have npos: "0 < ?n"
    using wf by (simp add: wf_grid_def line_count_def)
  have Mpos: "0 < M"
    using npos short by simp
  have s: "0 \<le> s" "s < M"
    using d Mpos by auto
  have split: "[0..M - 1] = [0..?n - 1] @ ?n # [?n + 1..M - 1]"
    using npos short by (intro upto_split3) simp_all
  have "\<exists>g'. for_rows ?body [0..?n - 1] g = Some (Inr g')
      \<and> (wf_grid g' \<and> width g' = width g \<and> height g' = height g)"
  proof (rule for_rows_total [where J = "\<lambda>g1. wf_grid g1 \<and> width g1 = width g \<and> height g1 = height g"])
    show "wf_grid g \<and> width g = width g \<and> height g = height g"
      using wf by simp
  next
    fix r g1
    assume r: "r \<in> set [0..?n - 1]" and j: "wf_grid g1 \<and> width g1 = width g \<and> height g1 = height g"
    have sh: "M = line_len tr g1" "line_count tr g1 = line_count tr g"
      using j M by (simp_all add: line_len_def line_count_def)
    have "\<exists>g'. squash_while M delta (tget tr) (tset tr) r s s g1 = Some (Inr g')
        \<and> wf_grid g' \<and> width g' = width g1 \<and> height g' = height g1"
      using r sh d j by (intro squash_while_total) auto
    then show "\<exists>g2. ?body r g1 = Some (Inr g2)
        \<and> wf_grid g2 \<and> width g2 = width g \<and> height g2 = height g"
      using j by auto
  qed
  then obtain g' where 1: "for_rows ?body [0..?n - 1] g = Some (Inr g')"
    "width g' = width g" "height g' = height g"
    by blast
  have "\<not> tinb tr g' ?n s"
    using 1(2,3) by (simp add: tinb_iff line_count_def)
  from squash_while_error [OF s s this, of delta]
  have "for_rows ?body (?n # [?n + 1..M - 1]) g' = Some (Inl IndexError)"
    by simp
  then show ?thesis
    using 1(1) by (simp add: squash_def split for_rows_append)
qed

lemma params_of_direction:
  assumes "d \<in> set DIRECTIONS"
  shows "\<exists>s M delta. get_params_for_direction gm d
         = Inr (s, M, delta, tget (d = UP \<or> d = DOWN), tset (d = UP \<or> d = DOWN))
     \<and> M = line_len (d = UP \<or> d = DOWN) (grid gm)
     \<and> (delta = 1 \<and> s = 0 \<or> delta = -1 \<and> s = M - 1)"
proof -
  from assms consider "d = LEFT" | "d = RIGHT" | "d = UP" | "d = DOWN"
    by (auto simp: DIRECTIONS_def)
  then show ?thesis
  proof cases
    case 1
    then show ?thesis
      by (simp add: get_params_for_direction_def Let_def tget_def tset_def line_len_def
          directions_distinct)
  next
    case 2
    then show ?thesis
      by (simp add: get_params_for_direction_def Let_def tget_def tset_def line_len_def
          directions_distinct)
  next
    case 3
    then show ?thesis
      by (simp add: get_params_for_direction_def Let_def tget_def tset_def line_len_def
          directions_distinct)
  next
    case 4
    then show ?thesis
      by (simp add: get_params_for_direction_def Let_def tget_def tset_def line_len_def
          directions_distinct)
  qed
qed

lemma same_shape_lines:
  assumes "width g1 = width g" "height g1 = height g"
  shows "line_len tr g1 = line_len tr g" "line_count tr g1 = line_count tr g"
  using assms by (simp_all add: line_len_def line_count_def)

lemma place_random_total:
  assumes "wf_grid (grid gm)"
  shows "\<exists>gm'. place_random r gm = Inr gm' \<and> wf_grid (grid gm')"
  using place_random_cases [of r gm] assms by (auto simp: wf_put)

text \<open>
  A slam in a recognized direction on a well-formed grid completes when the lines of the
  direction are no longer than their number (rows no longer than the height for LEFT and
  RIGHT, columns no longer than the width for UP and DOWN; so for every direction on a
  square grid), and raises IndexError when they are longer.
\<close>

lemma slam_outcome:
  assumes wf: "wf_grid (grid gm)" and dir: "d \<in> set DIRECTIONS"
  shows "(line_len (d = UP \<or> d = DOWN) (grid gm) \<le> line_count (d = UP \<or> d = DOWN) (grid gm)
        \<longrightarrow> (\<exists>gm'. slam d r gm = Some (Inr gm')))
     \<and> (line_count (d = UP \<or> d = DOWN) (grid gm) < line_len (d = UP \<or> d = DOWN) (grid gm)
        \<longrightarrow> slam d r gm = Some (Inl IndexError))"
proof -
  let ?tr = "d = UP \<or> d = DOWN"
  let ?g = "grid gm"
  from params_of_direction [OF dir, of gm] obtain s M delta where
    p: "get_params_for_direction gm d = Inr (s, M, delta, tget ?tr, tset ?tr)"
    and M: "M = line_len ?tr ?g"
    and d: "delta = 1 \<and> s = 0 \<or> delta = -1 \<and> s = M - 1"
    by blast
  have v: "validate_direction d = Inr ()"
    using dir by (simp add: validate_direction_def)
  have ok: "\<exists>gm'. slam d r gm = Some (Inr gm')" if fits: "M \<le> line_count ?tr ?g"
  proof -
    from squash_total [OF wf M d fits] obtain g1 where
      1: "squash s M delta (tget ?tr) (tset ?tr) ?g = Some (Inr g1)"
      "wf_grid g1" "width g1 = width ?g" "height g1 = height ?g"
      by blast
    have sh1: "M = line_len ?tr g1" "M \<le> line_count ?tr g1"
      using same_shape_lines [OF 1(3,4), of ?tr] M fits by simp_all
    from combine_total [OF 1(2) sh1(1) d sh1(2)] obtain g2 where
      2: "combine s M delta (tget ?tr) (tset ?tr) g1 = Some (Inr g2)"
      "wf_grid g2" "width g2 = width g1" "height g2 = height g1"
      by blast
    have sh2: "M = line_len ?tr g2" "M \<le> line_count ?tr g2"
      using same_shape_lines [OF 2(3,4), of ?tr] sh1 by simp_all
    from squash_total [OF 2(2) sh2(1) d sh2(2)] obtain g3 where
      3: "squash s M delta (tget ?tr) (tset ?tr) g2 = Some (Inr g3)" "wf_grid g3"
      by blast
    have m: "move_merge_move (s, M, delta, tget ?tr, tset ?tr) ?g = Some (Inr g3)"
      using 1(1) 2(1) 3(1) by (simp add: move_merge_move_def)
    from place_random_total [of "gm\<lparr>grid := g3\<rparr>" r] 3(2) obtain gm4 where
      4: "place_random r (gm\<lparr>grid := g3\<rparr>) = Inr gm4" "wf_grid (grid gm4)"
      by auto
    from py_max_Max [OF cell_values_nonempty [OF 4(2)]]
    have "slam d r gm = Some (Inr (gm4\<lparr>best_value := Max (set (cell_values (grid gm4)))\<rparr>))"
      using v p m 4(1) by (simp add: slam_def)
    then show ?thesis ..
  qed
  have fail: "slam d r gm = Some (Inl IndexError)" if short: "line_count ?tr ?g < M"
  proof -
    from squash_short [OF wf M d short]
    have "move_merge_move (s, M, delta, tget ?tr, tset ?tr) ?g = Some (Inl IndexError)"
      by (simp add: move_merge_move_def)
    then show ?thesis
      using v p by (simp add: slam_def)
  qed
  from ok fail M show ?thesis by simp
qed

end
